theory Spec2Isabelle
  imports Main "HOL-Library.Sublist"
begin

section \<open>Text and character classes\<close>

text \<open>
  The scripts read each log with \<^verbatim>\<open>file.open(encoding='utf-8', errors='ignore')\<close>, so the
  text is a Python \<^verbatim>\<open>str\<close>. It is modelled as a \<^typ>\<open>string\<close> whose characters are the
  code points 0..255; the classes \<^verbatim>\<open>\s\<close> and \<^verbatim>\<open>\d\<close> are the ones Python's \<^verbatim>\<open>re\<close>
  uses for \<^verbatim>\<open>str\<close> patterns, restricted to that range.
\<close>

definition code :: "char \<Rightarrow> nat" where
  "code c = of_char c"

definition is_space :: "char \<Rightarrow> bool" where
  \<comment> \<open>\<^verbatim>\<open>\s\<close> and \<^verbatim>\<open>str.isspace\<close>: TAB..CR, FS..US, space, NEL, NBSP\<close>
  "is_space c = (let n = code c in
     (9 \<le> n \<and> n \<le> 13) \<or> (28 \<le> n \<and> n \<le> 32) \<or> n = 133 \<or> n = 160)"

definition is_digit :: "char \<Rightarrow> bool" where
  \<comment> \<open>\<^verbatim>\<open>\d\<close> and \<^verbatim>\<open>[0-9]\<close>: below code point 256 the only decimal digits are 0..9\<close>
  "is_digit c = (let n = code c in 48 \<le> n \<and> n \<le> 57)"

definition is_upper_AZ :: "char \<Rightarrow> bool" where
  \<comment> \<open>\<^verbatim>\<open>[A-Z]\<close>\<close>
  "is_upper_AZ c = (let n = code c in 65 \<le> n \<and> n \<le> 90)"

definition newline :: char where
  "newline = CHR 0x0A"

definition any_char :: "char \<Rightarrow> bool" where
  \<comment> \<open>\<^verbatim>\<open>.\<close> under \<^verbatim>\<open>re.DOTALL\<close>\<close>
  "any_char c = True"

definition not_newline :: "char \<Rightarrow> bool" where
  \<comment> \<open>\<^verbatim>\<open>.\<close> without \<^verbatim>\<open>re.DOTALL\<close>\<close>
  "not_newline c = (c \<noteq> newline)"

definition is_char :: "char \<Rightarrow> char \<Rightarrow> bool" where
  "is_char a c = (c = a)"

section \<open>The fragment of Python's \<^verbatim>\<open>re\<close> that the scripts use\<close>

text \<open>
  Every pattern in the scripts is a sequence of single-character atoms, each with a
  quantifier (none, \<^verbatim>\<open>?\<close>, \<^verbatim>\<open>*\<close>, \<^verbatim>\<open>+\<close>, \<^verbatim>\<open>*?\<close>), of capturing parentheses that are not
  nested, and of \<^verbatim>\<open>$\<close> under \<^verbatim>\<open>re.MULTILINE\<close>. A pattern is the list of its items, in the
  order they are written.
\<close>

datatype quant = Once | Optional | Greedy_Star | Greedy_Plus | Lazy_Star

datatype item = Atom "char \<Rightarrow> bool" quant | Group_Open | Group_Close | End_Of_Line

type_synonym pattern = "item list"

definition lit :: "string \<Rightarrow> pattern" where
  "lit s = map (\<lambda>a. Atom (is_char a) Once) s"

text \<open>
  The matcher's state: the text of the group that is open, if one is, and the groups
  already closed, in order.
\<close>

record mstate =
  cur :: "string option"
  groups :: "string list"

definition init :: mstate where
  "init = \<lparr>cur = None, groups = []\<rparr>"

definition consume :: "char \<Rightarrow> mstate \<Rightarrow> mstate" where
  "consume c st = st\<lparr>cur := map_option (\<lambda>g. g @ [c]) (cur st)\<rparr>"

definition open_group :: "mstate \<Rightarrow> mstate" where
  "open_group st = st\<lparr>cur := Some []\<rparr>"

definition close_group :: "mstate \<Rightarrow> mstate" where
  "close_group st =
     (case cur st of None \<Rightarrow> st | Some g \<Rightarrow> st\<lparr>cur := None, groups := groups st @ [g]\<rparr>)"

text \<open>
  \<open>re_match p s st\<close> matches the pattern at the start of \<open>s\<close>, as \<^verbatim>\<open>re\<close>'s backtracking
  matcher does: a greedy quantifier tries the longer repetition first, a lazy one the
  shorter, and the first alternative under which the rest of the pattern matches wins.
  It returns the groups and the text after the match.
\<close>

fun re_match :: "pattern \<Rightarrow> string \<Rightarrow> mstate \<Rightarrow> (string list \<times> string) option" where
  "re_match [] s st = Some (groups st, s)"
| "re_match (Group_Open # r) s st = re_match r s (open_group st)"
| "re_match (Group_Close # r) s st = re_match r s (close_group st)"
| "re_match (End_Of_Line # r) s st =
     (case s of [] \<Rightarrow> re_match r s st
      | c # cs \<Rightarrow> if c = newline then re_match r s st else None)"
| "re_match (Atom p Once # r) s st =
     (case s of [] \<Rightarrow> None
      | c # cs \<Rightarrow> if p c then re_match r cs (consume c st) else None)"
| "re_match (Atom p Optional # r) s st =
     (case s of [] \<Rightarrow> re_match r s st
      | c # cs \<Rightarrow>
          if p c then
            (case re_match r cs (consume c st) of
               Some m \<Rightarrow> Some m
             | None \<Rightarrow> re_match r s st)
          else re_match r s st)"
| "re_match (Atom p Greedy_Star # r) s st =
     (case s of [] \<Rightarrow> re_match r s st
      | c # cs \<Rightarrow>
          if p c then
            (case re_match (Atom p Greedy_Star # r) cs (consume c st) of
               Some m \<Rightarrow> Some m
             | None \<Rightarrow> re_match r s st)
          else re_match r s st)"
| "re_match (Atom p Greedy_Plus # r) s st =
     (case s of [] \<Rightarrow> None
      | c # cs \<Rightarrow>
          if p c then re_match (Atom p Greedy_Star # r) cs (consume c st) else None)"
| "re_match (Atom p Lazy_Star # r) s st =
     (case re_match r s st of
        Some m \<Rightarrow> Some m
      | None \<Rightarrow>
          (case s of [] \<Rightarrow> None
           | c # cs \<Rightarrow>
               if p c then re_match (Atom p Lazy_Star # r) cs (consume c st) else None))"

text \<open>\<^verbatim>\<open>re.search\<close>: the match at the leftmost position that has one.\<close>

fun re_search :: "pattern \<Rightarrow> string \<Rightarrow> string list option" where
  "re_search p [] = map_option fst (re_match p [] init)"
| "re_search p (c # cs) =
     (case re_match p (c # cs) init of
        Some m \<Rightarrow> Some (fst m)
      | None \<Rightarrow> re_search p cs)"

text \<open>
  \<^verbatim>\<open>re.findall\<close> for a pattern with one group: the scan restarts where the last match
  ended and collects the group of every match. After an empty match the scan moves one
  character on.
\<close>

definition group1 :: "string list \<Rightarrow> string" where
  "group1 gs = (case gs of [] \<Rightarrow> [] | g # _ \<Rightarrow> g)"

function re_findall :: "pattern \<Rightarrow> string \<Rightarrow> string list" where
  "re_findall p s =
     (case re_match p s init of
        Some (gs, rest) \<Rightarrow>
          (if length rest < length s then group1 gs # re_findall p rest
           else (case s of [] \<Rightarrow> [group1 gs]
                 | c # cs \<Rightarrow> group1 gs # re_findall p cs))
      | None \<Rightarrow> (case s of [] \<Rightarrow> [] | c # cs \<Rightarrow> re_findall p cs))"
  by pat_completeness auto
termination
  by (relation "measure (\<lambda>(p, s). length s)") auto

section \<open>Python values and library functions the scripts call\<close>

datatype error = ValueError | IndexError

text \<open>
  A Python value as the scripts produce them. \<open>PyFloat l\<close> is the float that
  \<^verbatim>\<open>float(l)\<close> returns: the rounding of a decimal literal to a double is not modelled, the
  value keeps the literal it was converted from.
\<close>

datatype pyval = PyNone | PyStr string | PyFloat string

definition py_strip :: "string \<Rightarrow> string" where
  \<comment> \<open>\<^verbatim>\<open>str.strip()\<close>\<close>
  "py_strip s = rev (dropWhile is_space (rev (dropWhile is_space s)))"

fun py_split :: "char \<Rightarrow> string \<Rightarrow> string list" where
  \<comment> \<open>\<^verbatim>\<open>str.split(sep)\<close> for a separator of one character\<close>
  "py_split sep [] = [[]]"
| "py_split sep (c # cs) =
     (if c = sep then [] # py_split sep cs
      else (case py_split sep cs of [] \<Rightarrow> [[c]] | x # xs \<Rightarrow> (c # x) # xs))"

definition py_split1 :: "char \<Rightarrow> string \<Rightarrow> string list" where
  \<comment> \<open>\<^verbatim>\<open>str.split(sep, 1)\<close>\<close>
  "py_split1 sep s =
     (if sep \<in> set s
      then [takeWhile (\<lambda>c. c \<noteq> sep) s, drop 1 (dropWhile (\<lambda>c. c \<noteq> sep) s)]
      else [s])"

fun contains :: "string \<Rightarrow> string \<Rightarrow> bool" where
  \<comment> \<open>\<^verbatim>\<open>sub in s\<close>\<close>
  "contains sub [] = (sub = [])"
| "contains sub (c # cs) = (prefix sub (c # cs) \<or> contains sub cs)"

definition py_lower :: "string \<Rightarrow> string" where
  \<comment> \<open>\<^verbatim>\<open>str.lower()\<close> on the code points 0..255\<close>
  "py_lower s = map (\<lambda>c. let n = code c in
       if (65 \<le> n \<and> n \<le> 90) \<or> (192 \<le> n \<and> n \<le> 222 \<and> n \<noteq> 215)
       then char_of (n + 32) else c) s"

definition rfind :: "char \<Rightarrow> string \<Rightarrow> nat option" where
  \<comment> \<open>\<^verbatim>\<open>str.rfind\<close>: the index of the last occurrence, \<open>None\<close> for Python's -1\<close>
  "rfind c s =
     (if c \<in> set s then Some (length s - 1 - length (takeWhile (\<lambda>x. x \<noteq> c) (rev s)))
      else None)"

definition stem :: "string \<Rightarrow> string" where
  \<comment> \<open>\<^verbatim>\<open>Path.stem\<close> of a file name: the name without its last suffix\<close>
  "stem name =
     (case rfind CHR ''.'' name of
        None \<Rightarrow> name
      | Some i \<Rightarrow> if 0 < i \<and> i < length name - 1 then take i name else name)"

subsection \<open>\<^verbatim>\<open>float(str)\<close>\<close>

text \<open>
  \<^verbatim>\<open>float\<close> raises \<^verbatim>\<open>ValueError\<close> unless the text, without the white space around it, is, after an optional sign,
  \<^verbatim>\<open>inf\<close>, \<^verbatim>\<open>infinity\<close> or \<^verbatim>\<open>nan\<close> in any case, or a number
  \<^verbatim>\<open>[digitpart] "." digitpart | digitpart ["."]\<close> with an optional exponent, where
  \<^verbatim>\<open>digitpart\<close> is \<^verbatim>\<open>digit (["_"] digit)*\<close>.
\<close>

fun digit_tail :: "string \<Rightarrow> string" where
  \<comment> \<open>skips \<^verbatim>\<open>(["_"] digit)*\<close>\<close>
  "digit_tail [] = []"
| "digit_tail [c] = (if is_digit c then [] else [c])"
| "digit_tail (c # d # cs) =
     (if is_digit c then digit_tail (d # cs)
      else if c = CHR ''_'' \<and> is_digit d then digit_tail cs
      else c # d # cs)"

definition digitpart :: "string \<Rightarrow> string option" where
  "digitpart s =
     (case s of [] \<Rightarrow> None
      | c # cs \<Rightarrow> if is_digit c then Some (digit_tail cs) else None)"

definition opt_sign :: "string \<Rightarrow> string" where
  "opt_sign s =
     (case s of [] \<Rightarrow> []
      | c # cs \<Rightarrow> if c = CHR ''+'' \<or> c = CHR ''-'' then cs else s)"

definition exponent_ok :: "string \<Rightarrow> bool" where
  \<comment> \<open>an optional exponent, then the end of the text\<close>
  "exponent_ok s =
     (case s of [] \<Rightarrow> True
      | c # cs \<Rightarrow> (c = CHR ''e'' \<or> c = CHR ''E'') \<and> digitpart (opt_sign cs) = Some [])"

definition number_ok :: "string \<Rightarrow> bool" where
  "number_ok s =
     (case digitpart s of
        Some r \<Rightarrow>
          (case r of [] \<Rightarrow> True
           | c # cs \<Rightarrow>
               if c = CHR ''.'' then
                 (case digitpart cs of Some r' \<Rightarrow> exponent_ok r' | None \<Rightarrow> exponent_ok cs)
               else exponent_ok r)
      | None \<Rightarrow>
          (case s of [] \<Rightarrow> False
           | c # cs \<Rightarrow>
               c = CHR ''.'' \<and>
               (case digitpart cs of Some r' \<Rightarrow> exponent_ok r' | None \<Rightarrow> False)))"

definition inf_nan :: "string \<Rightarrow> bool" where
  "inf_nan s = (py_lower s = ''inf'' \<or> py_lower s = ''infinity'' \<or> py_lower s = ''nan'')"

definition float_space :: "char \<Rightarrow> bool" where
  \<comment> \<open>what \<^verbatim>\<open>float\<close> skips around the number: \<^verbatim>\<open>\s\<close> without FS..US\<close>
  "float_space c = (let n = code c in (9 \<le> n \<and> n \<le> 13) \<or> n = 32 \<or> n = 133 \<or> n = 160)"

definition py_float :: "string \<Rightarrow> error + pyval" where
  "py_float s =
     (let t = opt_sign (rev (dropWhile float_space (rev (dropWhile float_space s))))
      in if number_ok t \<or> inf_nan t then Inr (PyFloat s) else Inl ValueError)"

section \<open>The functions of the script\<close>

text \<open>
  The source file holds two scripts; the second (the spreadsheet variant, lines 110 to
  266) is the one modelled here. Its first six functions are textually the same as the
  first script's.
\<close>

definition bond_length_re :: pattern where
  \<comment> \<open>\<^verbatim>\<open>INTERNUCLEAR DISTANCES \(ANGS\.\).*?\n\s*\d+\s+[A-Z]+\s+([0-9]+\.\d+)\s+\*\<close>, \<^verbatim>\<open>re.DOTALL\<close>\<close>
  "bond_length_re =
     lit ''INTERNUCLEAR DISTANCES (ANGS.)'' @
     [Atom any_char Lazy_Star, Atom (is_char newline) Once,
      Atom is_space Greedy_Star, Atom is_digit Greedy_Plus,
      Atom is_space Greedy_Plus, Atom is_upper_AZ Greedy_Plus,
      Atom is_space Greedy_Plus,
      Group_Open, Atom is_digit Greedy_Plus, Atom (is_char CHR ''.'') Once,
      Atom is_digit Greedy_Plus, Group_Close,
      Atom is_space Greedy_Plus, Atom (is_char CHR ''*'') Once]"

definition heat_of_formation_re :: pattern where
  \<comment> \<open>\<^verbatim>\<open>HEAT OF FORMATION IS\s+(-?\d+\.\d+)\<close>\<close>
  "heat_of_formation_re =
     lit ''HEAT OF FORMATION IS'' @
     [Atom is_space Greedy_Plus,
      Group_Open, Atom (is_char CHR ''-'') Optional, Atom is_digit Greedy_Plus,
      Atom (is_char CHR ''.'') Once, Atom is_digit Greedy_Plus, Group_Close]"

definition total_energy_re :: pattern where
  \<comment> \<open>\<^verbatim>\<open>TOTAL ENERGY\s+=\s+(-?\d+\.\d+)\<close>\<close>
  "total_energy_re =
     lit ''TOTAL ENERGY'' @
     [Atom is_space Greedy_Plus, Atom (is_char CHR ''='') Once, Atom is_space Greedy_Plus,
      Group_Open, Atom (is_char CHR ''-'') Optional, Atom is_digit Greedy_Plus,
      Atom (is_char CHR ''.'') Once, Atom is_digit Greedy_Plus, Group_Close]"

definition wall_clock_re :: pattern where
  \<comment> \<open>\<^verbatim>\<open>TOTAL WALL CLOCK TIME=\s+([0-9]+\.\d+)\<close>\<close>
  "wall_clock_re =
     lit ''TOTAL WALL CLOCK TIME='' @
     [Atom is_space Greedy_Plus,
      Group_Open, Atom is_digit Greedy_Plus, Atom (is_char CHR ''.'') Once,
      Atom is_digit Greedy_Plus, Group_Close]"

definition input_card_re :: pattern where
  \<comment> \<open>\<^verbatim>\<open>INPUT CARD>!\s*(.*?)\s*\|\s*.*?\|\s*(.*?)\s*$\<close>, \<^verbatim>\<open>re.MULTILINE\<close>\<close>
  "input_card_re =
     lit ''INPUT CARD>!'' @
     [Atom is_space Greedy_Star,
      Group_Open, Atom not_newline Lazy_Star, Group_Close,
      Atom is_space Greedy_Star, Atom (is_char CHR ''|'') Once,
      Atom is_space Greedy_Star, Atom not_newline Lazy_Star, Atom (is_char CHR ''|'') Once,
      Atom is_space Greedy_Star,
      Group_Open, Atom not_newline Lazy_Star, Group_Close,
      Atom is_space Greedy_Star, End_Of_Line]"

definition group :: "string list \<Rightarrow> nat \<Rightarrow> error + string" where
  \<comment> \<open>\<^verbatim>\<open>match.group(k)\<close> for \<open>k \<ge> 1\<close>; a group the pattern does not have raises\<close>
  "group gs k = (if 1 \<le> k \<and> k \<le> length gs then Inr (gs ! (k - 1)) else Inl IndexError)"

definition float_group1 :: "string list option \<Rightarrow> error + pyval" where
  \<comment> \<open>\<^verbatim>\<open>float(match.group(1)) if match else None\<close>\<close>
  "float_group1 m =
     (case m of None \<Rightarrow> Inr PyNone
      | Some gs \<Rightarrow> (case group gs 1 of Inl e \<Rightarrow> Inl e | Inr g \<Rightarrow> py_float g))"

definition extract_bond_length :: "string \<Rightarrow> error + pyval" where
  "extract_bond_length text = float_group1 (re_search bond_length_re text)"

definition extract_heat_of_formation :: "string \<Rightarrow> error + pyval" where
  "extract_heat_of_formation text = float_group1 (re_search heat_of_formation_re text)"

definition extract_total_energy :: "string \<Rightarrow> error + pyval" where
  "extract_total_energy text = float_group1 (re_search total_energy_re text)"

type_synonym metadata = "pyval \<times> pyval \<times> pyval \<times> pyval"

definition unresolved :: metadata where
  "unresolved = (PyNone, PyNone, PyNone, PyNone)"

definition parse_filename :: "string \<Rightarrow> metadata" where
  \<comment> \<open>the argument is the file's name; unpacking a list that has not four elements
      raises \<^verbatim>\<open>ValueError\<close>, which the function catches\<close>
  "parse_filename name =
     (case py_split CHR ''_'' (stem name) of
        [molecule, forcefield, basis, comp'] \<Rightarrow>
          (PyStr molecule, PyStr forcefield, PyStr basis, PyStr comp')
      | _ \<Rightarrow> unresolved)"

definition run_time :: "string \<Rightarrow> pyval" where
  "run_time text =
     (let matches = re_findall wall_clock_re text
      in if matches \<noteq> [] then PyStr (last matches) else PyNone)"

definition fallback_body :: "string \<Rightarrow> error + metadata" where
  \<comment> \<open>the body of the \<^verbatim>\<open>try\<close> in \<^verbatim>\<open>fallback_parse_input_section\<close>\<close>
  "fallback_body text =
     (case re_search input_card_re text of
        None \<Rightarrow> Inr unresolved
      | Some gs \<Rightarrow>
          (case group gs 1 of Inl e \<Rightarrow> Inl e
           | Inr g1 \<Rightarrow>
          (case group gs 2 of Inl e \<Rightarrow> Inl e
           | Inr g2 \<Rightarrow>
               let molecule = py_strip g1;
                   method_basis = py_strip g2;
                   (method, basis) =
                     (if CHR ''/'' \<in> set method_basis
                      then (case py_split1 CHR ''/'' method_basis of
                              [m, b] \<Rightarrow> (m, b) | _ \<Rightarrow> (method_basis, ''Unknown''))
                      else (method_basis, ''Unknown''))
               in Inr (PyStr molecule, PyStr ''Unknown'',
                       PyStr (py_strip basis), PyStr (py_strip method)))))"

definition fallback_parse_input_section :: "string \<Rightarrow> metadata" where
  \<comment> \<open>\<^verbatim>\<open>except Exception: return None, None, None, None\<close>\<close>
  "fallback_parse_input_section text =
     (case fallback_body text of Inl e \<Rightarrow> unresolved | Inr m \<Rightarrow> m)"

section \<open>The main loop\<close>

text \<open>
  A file is its name and the text read from it. A row of the table is the dictionary the
  loop appends, as the list of its keys and values in the order they are written.
\<close>

type_synonym row = "(string \<times> pyval) list"

datatype tier = Filename_Tier | Fallback_Tier

definition resolve_metadata :: "string \<Rightarrow> string \<Rightarrow> metadata \<times> tier list" where
  \<comment> \<open>lines 191 to 193; the second component lists the parsers that were called\<close>
  "resolve_metadata name contents =
     (case parse_filename name of (molecule, ff, basis, method) \<Rightarrow>
        if PyNone \<in> set [molecule, ff, basis, method]
        then (fallback_parse_input_section contents, [Filename_Tier, Fallback_Tier])
        else ((molecule, ff, basis, method), [Filename_Tier]))"

definition or_NA :: "pyval \<Rightarrow> pyval" where
  \<comment> \<open>\<^verbatim>\<open>v if v is not None else 'NA'\<close>\<close>
  "or_NA v = (if v \<noteq> PyNone then v else PyStr ''NA'')"

definition make_row :: "metadata \<Rightarrow> pyval \<Rightarrow> pyval \<Rightarrow> pyval \<Rightarrow> pyval \<Rightarrow> string \<Rightarrow> row" where
  "make_row m bond heat energy time completion =
     (case m of (molecule, ff, basis, method) \<Rightarrow>
        [(''molecule'', molecule),
         (''force_field'', ff),
         (''basis'', basis),
         (''comp_method'', method),
         (''bond_length ('' @ [CHR 0xC5] @ '')'', or_NA bond),
         (''heat_of_formation (kcal/mol)'', or_NA heat),
         (''Total Energy (Hartrees)'', or_NA energy),
         (''Run_Time (s)'', or_NA time),
         (''Completion'', PyStr completion)])"

definition terminated_normally :: string where
  "terminated_normally = ''EXECUTION OF GAMESS TERMINATED NORMALLY''"

definition loop_body :: "string \<Rightarrow> string \<Rightarrow> row list \<Rightarrow> error + row list" where
  \<comment> \<open>the body of the \<^verbatim>\<open>try\<close>, lines 188 to 232, from the text already read\<close>
  "loop_body name contents results =
     (let m = fst (resolve_metadata name contents) in
      case extract_bond_length contents of Inl e \<Rightarrow> Inl e | Inr bond \<Rightarrow>
      case extract_heat_of_formation contents of Inl e \<Rightarrow> Inl e | Inr heat \<Rightarrow>
      case extract_total_energy contents of Inl e \<Rightarrow> Inl e | Inr energy \<Rightarrow>
      let time = run_time contents in
      if \<not> contains terminated_normally contents
      then Inr (results @ [make_row m bond heat energy time ''Incomplete''])
      else if list_ex (\<lambda>v. v \<noteq> PyNone) [bond, heat, energy]
      then Inr (results @ [make_row m bond heat energy time ''Completed''])
      else Inr results)"

definition process_file :: "row list \<Rightarrow> string \<times> string \<Rightarrow> row list" where
  \<comment> \<open>one turn of the loop: the skip of lines 181 to 183, then the \<^verbatim>\<open>try\<close>, whose
      \<^verbatim>\<open>except Exception\<close> only prints\<close>
  "process_file results file =
     (case file of (name, contents) \<Rightarrow>
        if py_lower name = ''readme.txt'' then results
        else (case loop_body name contents results of Inl e \<Rightarrow> results | Inr rs \<Rightarrow> rs))"

definition main_loop :: "(string \<times> string) list \<Rightarrow> row list" where
  "main_loop files = foldl process_file [] files"

definition cell :: "row \<Rightarrow> string \<Rightarrow> pyval option" where
  \<comment> \<open>the value of a column in a row\<close>
  "cell r k = map_of r k"

definition is_float :: "pyval \<Rightarrow> bool" where
  "is_float v = (case v of PyFloat _ \<Rightarrow> True | _ \<Rightarrow> False)"

definition is_str :: "pyval \<Rightarrow> bool" where
  "is_str v = (case v of PyStr _ \<Rightarrow> True | _ \<Rightarrow> False)"

section \<open>Notions used to state and prove the properties\<close>

definition feed :: "string \<Rightarrow> mstate \<Rightarrow> mstate" where
  \<comment> \<open>the state after the matcher has consumed the characters \<open>xs\<close>\<close>
  "feed xs st = st\<lparr>cur := map_option (\<lambda>g. g @ xs) (cur st)\<rparr>"

definition decimal :: "string \<Rightarrow> bool" where
  \<comment> \<open>digits, a point, digits\<close>
  "decimal s =
     (takeWhile is_digit s \<noteq> [] \<and>
      (case dropWhile is_digit s of [] \<Rightarrow> False
       | c # b \<Rightarrow> c = CHR ''.'' \<and> b \<noteq> [] \<and> list_all is_digit b))"

definition signed_decimal :: "string \<Rightarrow> bool" where
  \<comment> \<open>a decimal after an optional minus sign\<close>
  "signed_decimal s =
     (case s of [] \<Rightarrow> False
      | c # r \<Rightarrow> if c = CHR ''-'' then decimal r else decimal s)"

definition trimmed :: "string \<Rightarrow> bool" where
  \<comment> \<open>no white space at either end\<close>
  "trimmed s = (s = [] \<or> (\<not> is_space (hd s) \<and> \<not> is_space (last s)))"

definition matches_glob_log :: "string \<Rightarrow> bool" where
  \<comment> \<open>the names \<^verbatim>\<open>input_path.glob('*.log')\<close> yields: they end in \<^verbatim>\<open>.log\<close>, in any case
      where the file system ignores case\<close>
  "matches_glob_log name = suffix ''.log'' (py_lower name)"

definition bond_length_column :: string where
  "bond_length_column = ''bond_length ('' @ [CHR 0xC5] @ '')''"

fun occurrences :: "pattern \<Rightarrow> string \<Rightarrow> string list" where
  \<comment> \<open>the first group of the match at every position that has one, from left to right\<close>
  "occurrences p [] =
     (case re_match p [] init of None \<Rightarrow> [] | Some m \<Rightarrow> [group1 (fst m)])"
| "occurrences p (c # cs) =
     (case re_match p (c # cs) init of
        None \<Rightarrow> occurrences p cs
      | Some m \<Rightarrow> group1 (fst m) # occurrences p cs)"

section \<open>The filename tier\<close>

lemma py_split_length: "length (py_split sep s) = Suc (count_list s sep)"
  by (induction s) (auto split: list.splits)

lemma py_split_no_sep: "sep \<notin> set a \<Longrightarrow> py_split sep a = [a]"
  by (induction a) auto

lemma py_split_append: "sep \<notin> set a \<Longrightarrow> py_split sep (a @ sep # s) = a # py_split sep s"
  by (induction a) auto

lemma parse_filename_cases:
  "parse_filename name = unresolved \<or>
   (\<exists>a b c d. parse_filename name = (PyStr a, PyStr b, PyStr c, PyStr d))"
  by (simp add: parse_filename_def split: list.splits)

lemma parse_filename_four:
  "py_split CHR ''_'' (stem name) = [a, b, c, d] \<Longrightarrow>
   parse_filename name = (PyStr a, PyStr b, PyStr c, PyStr d)"
  by (simp add: parse_filename_def)

lemma parse_filename_not_four:
  "length (py_split CHR ''_'' (stem name)) \<noteq> 4 \<Longrightarrow> parse_filename name = unresolved"
  by (auto simp add: parse_filename_def split: list.splits)

text \<open>
  Claim C5. The filename tier splits the base name on \<^verbatim>\<open>_\<close>: a base name made of four
  segments without the delimiter, joined by it, yields the four segments in the order
  (molecule, forceField, basisSet, method); a base name whose number of delimiters is not
  three yields no field at all; and the result is always either all four fields or none.
\<close>

theorem parse_filename_all_or_nothing:
  "(\<forall>a b c d. stem name = a @ ''_'' @ b @ ''_'' @ c @ ''_'' @ d \<and>
       CHR ''_'' \<notin> set a \<and> CHR ''_'' \<notin> set b \<and> CHR ''_'' \<notin> set c \<and> CHR ''_'' \<notin> set d \<longrightarrow>
       parse_filename name = (PyStr a, PyStr b, PyStr c, PyStr d)) \<and>
   (count_list (stem name) CHR ''_'' \<noteq> 3 \<longrightarrow> parse_filename name = unresolved) \<and>
   (parse_filename name = unresolved \<or>
    (\<exists>a b c d. parse_filename name = (PyStr a, PyStr b, PyStr c, PyStr d)))"
proof (intro conjI allI impI)
  fix a b c d
  assume h: "stem name = a @ ''_'' @ b @ ''_'' @ c @ ''_'' @ d \<and>
       CHR ''_'' \<notin> set a \<and> CHR ''_'' \<notin> set b \<and> CHR ''_'' \<notin> set c \<and> CHR ''_'' \<notin> set d"
  then have "py_split CHR ''_'' (stem name) = [a, b, c, d]"
    by (simp add: py_split_append py_split_no_sep)
  then show "parse_filename name = (PyStr a, PyStr b, PyStr c, PyStr d)"
    by (rule parse_filename_four)
next
  assume "count_list (stem name) CHR ''_'' \<noteq> 3"
  then have "length (py_split CHR ''_'' (stem name)) \<noteq> 4"
    by (simp add: py_split_length)
  then show "parse_filename name = unresolved" by (rule parse_filename_not_four)
next
  show "parse_filename name = unresolved \<or>
    (\<exists>a b c d. parse_filename name = (PyStr a, PyStr b, PyStr c, PyStr d))"
    by (rule parse_filename_cases)
qed

theorem parse_filename_all_or_nothing_witness:
  "parse_filename ''Water_FF1_631G_HF.log'' = (PyStr ''Water'', PyStr ''FF1'', PyStr ''631G'', PyStr ''HF'') \<and>
   parse_filename ''badname.log'' = unresolved"
proof -
  have s1: "stem ''Water_FF1_631G_HF.log'' = ''Water'' @ ''_'' @ ''FF1'' @ ''_'' @ ''631G'' @ ''_'' @ ''HF''"
    by code_simp
  have n: "CHR ''_'' \<notin> set ''Water'' \<and> CHR ''_'' \<notin> set ''FF1'' \<and> CHR ''_'' \<notin> set ''631G'' \<and> CHR ''_'' \<notin> set ''HF''"
    by simp
  have s2: "count_list (stem ''badname.log'') CHR ''_'' \<noteq> 3"
    by code_simp
  from parse_filename_all_or_nothing [of "''Water_FF1_631G_HF.log''"] s1 n
  have a: "parse_filename ''Water_FF1_631G_HF.log'' = (PyStr ''Water'', PyStr ''FF1'', PyStr ''631G'', PyStr ''HF'')"
    by blast
  from parse_filename_all_or_nothing [of "''badname.log''"] s2
  have b: "parse_filename ''badname.log'' = unresolved" by blast
  from a b show ?thesis by simp
qed

section \<open>Facts about the matcher\<close>

lemma consume_feed: "consume c st = feed [c] st"
  by (simp add: consume_def feed_def)

lemma feed_Nil [simp]: "feed [] st = st"
  by (simp add: feed_def option.map_ident)

lemma feed_feed [simp]: "feed ys (feed xs st) = feed (xs @ ys) st"
  by (cases "cur st") (simp_all add: feed_def)

lemma groups_feed [simp]: "groups (feed xs st) = groups st"
  by (simp add: feed_def)

lemma cur_feed [simp]: "cur (feed xs st) = map_option (\<lambda>g. g @ xs) (cur st)"
  by (simp add: feed_def)

lemma feed_closed [simp]: "cur st = None \<Longrightarrow> feed xs st = st"
  by (simp add: feed_def)

lemma once_inv:
  assumes "re_match (Atom p Once # r) s st = Some m"
  obtains c s' where "s = c # s'" "p c" "re_match r s' (feed [c] st) = Some m"
  using assms by (cases s) (auto simp: consume_feed split: if_splits)

lemma star_inv_ex:
  "re_match (Atom p Greedy_Star # r) s st = Some m \<Longrightarrow>
   \<exists>xs s'. s = xs @ s' \<and> list_all p xs \<and> re_match r s' (feed xs st) = Some m"
proof (induction s arbitrary: st)
  case Nil
  then show ?case by simp
next
  case (Cons c cs)
  show ?case
  proof (cases "p c \<and> re_match (Atom p Greedy_Star # r) cs (consume c st) \<noteq> None")
    case True
    with Cons.prems have "re_match (Atom p Greedy_Star # r) cs (consume c st) = Some m"
      by auto
    from Cons.IH [OF this] obtain xs s' where
      "cs = xs @ s'" "list_all p xs" "re_match r s' (feed xs (consume c st)) = Some m"
      by blast
    with True have "c # cs = (c # xs) @ s' \<and> list_all p (c # xs) \<and>
        re_match r s' (feed (c # xs) st) = Some m"
      by (simp add: consume_feed)
    then show ?thesis by blast
  next
    case False
    with Cons.prems have "re_match r (c # cs) st = Some m"
      by (auto split: if_splits option.splits)
    then have "c # cs = [] @ (c # cs) \<and> list_all p [] \<and> re_match r (c # cs) (feed [] st) = Some m"
      by simp
    then show ?thesis by blast
  qed
qed

lemma star_inv:
  assumes "re_match (Atom p Greedy_Star # r) s st = Some m"
  obtains xs s' where "s = xs @ s'" "list_all p xs" "re_match r s' (feed xs st) = Some m"
  using star_inv_ex [OF assms] by blast

lemma plus_inv:
  assumes "re_match (Atom p Greedy_Plus # r) s st = Some m"
  obtains xs s' where "s = xs @ s'" "xs \<noteq> []" "list_all p xs"
    "re_match r s' (feed xs st) = Some m"
proof (cases s)
  case Nil
  with assms show ?thesis by simp
next
  case (Cons c cs)
  with assms have pc: "p c" and "re_match (Atom p Greedy_Star # r) cs (consume c st) = Some m"
    by (auto split: if_splits)
  then obtain xs s' where "cs = xs @ s'" "list_all p xs"
      "re_match r s' (feed xs (consume c st)) = Some m"
    by (elim star_inv)
  with Cons pc have "s = (c # xs) @ s'" "c # xs \<noteq> []" "list_all p (c # xs)"
      "re_match r s' (feed (c # xs) st) = Some m"
    by (simp_all add: consume_feed)
  then show ?thesis by (rule that)
qed

lemma lazy_inv_ex:
  "re_match (Atom p Lazy_Star # r) s st = Some m \<Longrightarrow>
   \<exists>xs s'. s = xs @ s' \<and> list_all p xs \<and> re_match r s' (feed xs st) = Some m"
proof (induction s arbitrary: st)
  case Nil
  then show ?case by (auto split: option.splits)
next
  case (Cons c cs)
  show ?case
  proof (cases "re_match r (c # cs) st")
    case (Some m')
    with Cons.prems have "re_match r (c # cs) (feed [] st) = Some m" by simp
    then have "c # cs = [] @ (c # cs) \<and> list_all p [] \<and> re_match r (c # cs) (feed [] st) = Some m"
      by simp
    then show ?thesis by blast
  next
    case None
    with Cons.prems have pc: "p c"
      and "re_match (Atom p Lazy_Star # r) cs (consume c st) = Some m"
      by (auto split: if_splits)
    from Cons.IH [OF this(2)] obtain xs s' where
      "cs = xs @ s'" "list_all p xs" "re_match r s' (feed xs (consume c st)) = Some m"
      by blast
    with pc have "c # cs = (c # xs) @ s' \<and> list_all p (c # xs) \<and>
        re_match r s' (feed (c # xs) st) = Some m"
      by (simp add: consume_feed)
    then show ?thesis by blast
  qed
qed

lemma lazy_inv:
  assumes "re_match (Atom p Lazy_Star # r) s st = Some m"
  obtains xs s' where "s = xs @ s'" "list_all p xs" "re_match r s' (feed xs st) = Some m"
  using lazy_inv_ex [OF assms] by blast

lemma optional_inv:
  assumes "re_match (Atom p Optional # r) s st = Some m"
  obtains xs s' where "s = xs @ s'" "xs = [] \<or> (\<exists>c. xs = [c] \<and> p c)"
    "re_match r s' (feed xs st) = Some m"
proof (cases "\<exists>c cs. s = c # cs \<and> p c \<and> re_match r cs (consume c st) \<noteq> None")
  case True
  then obtain c cs where s: "s = c # cs" "p c" "re_match r cs (consume c st) \<noteq> None"
    by blast
  with assms have "re_match r cs (feed [c] st) = Some m"
    by (auto simp: consume_feed)
  with s show ?thesis by (intro that [of "[c]" cs]) auto
next
  case False
  with assms have "re_match r s (feed [] st) = Some m"
    by (cases s) (auto split: if_splits option.splits)
  then show ?thesis by (intro that [of "[]" s]) auto
qed

lemma lit_inv_ex:
  "re_match (lit l @ r) s st = Some m \<Longrightarrow>
   \<exists>s'. s = l @ s' \<and> re_match r s' (feed l st) = Some m"
proof (induction l arbitrary: s st)
  case Nil
  then show ?case by (simp add: lit_def)
next
  case (Cons a l)
  from Cons.prems have "re_match (Atom (is_char a) Once # (lit l @ r)) s st = Some m"
    by (simp add: lit_def)
  then obtain c s1 where s: "s = c # s1" "is_char a c"
      "re_match (lit l @ r) s1 (feed [c] st) = Some m"
    by (elim once_inv)
  from Cons.IH [OF s(3)] obtain s' where "s1 = l @ s'"
      "re_match r s' (feed l (feed [c] st)) = Some m" by blast
  with s show ?case by (simp add: is_char_def)
qed

lemma lit_inv:
  assumes "re_match (lit l @ r) s st = Some m"
  obtains s' where "s = l @ s'" "re_match r s' (feed l st) = Some m"
  using lit_inv_ex [OF assms] by blast

subsection \<open>Decimals are accepted by \<^verbatim>\<open>float\<close>\<close>

lemma not_digit_point [simp]: "\<not> is_digit CHR ''.''"
  by (simp add: is_digit_def code_def)

lemma decimalI:
  "a \<noteq> [] \<Longrightarrow> list_all is_digit a \<Longrightarrow> b \<noteq> [] \<Longrightarrow> list_all is_digit b \<Longrightarrow>
   decimal (a @ CHR ''.'' # b)"
  by (simp add: decimal_def takeWhile_append2 dropWhile_append2 list_all_iff)

lemma decimalE:
  assumes "decimal s"
  obtains a b where "s = a @ CHR ''.'' # b" "a \<noteq> []" "list_all is_digit a"
    "b \<noteq> []" "list_all is_digit b"
proof -
  from assms obtain b where d: "dropWhile is_digit s = CHR ''.'' # b" "b \<noteq> []"
      "list_all is_digit b" "takeWhile is_digit s \<noteq> []"
    by (auto simp: decimal_def split: list.splits)
  have "s = takeWhile is_digit s @ dropWhile is_digit s" by simp
  with d have "s = takeWhile is_digit s @ CHR ''.'' # b" by simp
  moreover have "list_all is_digit (takeWhile is_digit s)"
    by (simp add: list_all_iff) (meson set_takeWhileD)
  ultimately show ?thesis using d by (intro that [of "takeWhile is_digit s" b]) auto
qed

lemma digit_tail_digit: "is_digit c \<Longrightarrow> digit_tail (c # cs) = digit_tail cs"
  by (cases cs) auto

lemma digit_tail_digits: "list_all is_digit ds \<Longrightarrow> digit_tail (ds @ r) = digit_tail r"
  by (induction ds) (auto simp: digit_tail_digit)

lemma digit_tail_point: "digit_tail (CHR ''.'' # r) = CHR ''.'' # r"
  by (cases r) auto

lemma number_ok_decimal: "decimal s \<Longrightarrow> number_ok s"
proof (erule decimalE)
  fix a b
  assume s: "s = a @ CHR ''.'' # b" and a: "a \<noteq> []" "list_all is_digit a"
    and b: "b \<noteq> []" "list_all is_digit b"
  from a obtain c a' where a': "a = c # a'" "is_digit c" "list_all is_digit a'"
    by (cases a) auto
  from b obtain d b' where b': "b = d # b'" "is_digit d" "list_all is_digit b'"
    by (cases b) auto
  have 1: "digitpart s = Some (CHR ''.'' # b)"
    using s a' by (simp add: digitpart_def digit_tail_digits digit_tail_point)
  have "digit_tail (b' @ []) = digit_tail []" using b' by (rule_tac digit_tail_digits)
  then have 2: "digitpart b = Some []"
    using b' by (simp add: digitpart_def)
  show "number_ok s"
    by (simp add: number_ok_def 1 2 exponent_ok_def)
qed

lemma digit_not_float_space: "is_digit c \<Longrightarrow> \<not> float_space c"
  by (auto simp: is_digit_def float_space_def Let_def)

lemma digit_not_sign: "is_digit c \<Longrightarrow> c \<noteq> CHR ''+'' \<and> c \<noteq> CHR ''-''"
  by (auto simp: is_digit_def code_def)

lemma minus_not_float_space [simp]: "\<not> float_space CHR ''-''"
  by (simp add: float_space_def code_def)

lemma py_float_signed_decimal:
  assumes "signed_decimal s"
  shows "py_float s = Inr (PyFloat s)"
proof -
  have "\<exists>sg t. s = sg @ t \<and> (sg = [] \<or> sg = ''-'') \<and> decimal t"
  proof (cases s)
    case Nil
    with assms show ?thesis by (simp add: signed_decimal_def)
  next
    case (Cons c r)
    show ?thesis
    proof (cases "c = CHR ''-''")
      case True
      with Cons assms have "s = ''-'' @ r \<and> decimal r" by (simp add: signed_decimal_def)
      then show ?thesis by blast
    next
      case False
      with Cons assms have "s = [] @ s \<and> decimal s" by (simp add: signed_decimal_def)
      then show ?thesis by blast
    qed
  qed
  then obtain sg t where st: "s = sg @ t" "sg = [] \<or> sg = ''-''" "decimal t"
    by blast
  from st(3) obtain a b where t: "t = a @ CHR ''.'' # b" "a \<noteq> []" "list_all is_digit a"
      "b \<noteq> []" "list_all is_digit b"
    by (rule decimalE)
  from t have ha: "is_digit (hd a)" and lb: "is_digit (last b)"
    by (auto simp: list_all_iff)
  have hd_s: "\<not> float_space (hd s)"
    using st t ha by (cases a) (auto simp: digit_not_float_space)
  have s_ne: "s \<noteq> []" using st t by auto
  have last_s: "last s = last b" using st t by auto
  have front: "dropWhile float_space s = s"
    using hd_s s_ne by (cases s) auto
  have "hd (rev s) = last s" using s_ne by (simp add: hd_rev)
  with last_s lb have "\<not> float_space (hd (rev s))" by (simp add: digit_not_float_space)
  then have rear: "dropWhile float_space (rev s) = rev s"
    using s_ne by (cases "rev s") auto
  have sign: "opt_sign s = t"
    using st t ha by (cases a) (auto simp: opt_sign_def digit_not_sign)
  show ?thesis
    using st(3) by (simp add: py_float_def front rear sign number_ok_decimal)
qed

subsection \<open>What the numeric patterns capture\<close>

lemma feed_open [simp]: "feed xs (st\<lparr>cur := Some g\<rparr>) = st\<lparr>cur := Some (g @ xs)\<rparr>"
  by (simp add: feed_def)

lemma close_open [simp]:
  "close_group (st\<lparr>cur := Some g\<rparr>) = st\<lparr>cur := None, groups := groups st @ [g]\<rparr>"
  by (simp add: close_group_def)

lemma decimal_group:
  assumes "re_match ([Group_Open, Atom is_digit Greedy_Plus, Atom (is_char CHR ''.'') Once,
      Atom is_digit Greedy_Plus, Group_Close] @ r) s st = Some m"
  obtains g s' where "decimal g" "s = g @ s'"
    "re_match r s' (st\<lparr>cur := None, groups := groups st @ [g]\<rparr>) = Some m"
proof -
  from assms have "re_match (Atom is_digit Greedy_Plus # Atom (is_char CHR ''.'') Once #
      Atom is_digit Greedy_Plus # Group_Close # r) s (st\<lparr>cur := Some []\<rparr>) = Some m"
    by (simp add: open_group_def)
  then obtain a s1 where a: "s = a @ s1" "a \<noteq> []" "list_all is_digit a"
    and "re_match (Atom (is_char CHR ''.'') Once # Atom is_digit Greedy_Plus # Group_Close # r)
      s1 (st\<lparr>cur := Some a\<rparr>) = Some m"
    by (elim plus_inv) simp
  then obtain c s2 where c: "s1 = c # s2" "is_char CHR ''.'' c"
    and "re_match (Atom is_digit Greedy_Plus # Group_Close # r)
      s2 (st\<lparr>cur := Some (a @ [c])\<rparr>) = Some m"
    by (elim once_inv) simp
  then obtain b s3 where b: "s2 = b @ s3" "b \<noteq> []" "list_all is_digit b"
    and "re_match (Group_Close # r) s3 (st\<lparr>cur := Some (a @ [c] @ b)\<rparr>) = Some m"
    by (elim plus_inv) simp
  then have m: "re_match r s3 (st\<lparr>cur := None, groups := groups st @ [a @ CHR ''.'' # b]\<rparr>) = Some m"
    using c by (simp add: is_char_def)
  have "decimal (a @ CHR ''.'' # b)" using a b by (simp add: decimalI)
  moreover have "s = (a @ CHR ''.'' # b) @ s3" using a b c by (simp add: is_char_def)
  ultimately show ?thesis using m by (rule that)
qed

lemma signed_decimal_group:
  assumes "re_match ([Group_Open, Atom (is_char CHR ''-'') Optional, Atom is_digit Greedy_Plus,
      Atom (is_char CHR ''.'') Once, Atom is_digit Greedy_Plus, Group_Close] @ r) s st = Some m"
  obtains g s' where "signed_decimal g" "s = g @ s'"
    "re_match r s' (st\<lparr>cur := None, groups := groups st @ [g]\<rparr>) = Some m"
proof -
  from assms have "re_match (Atom (is_char CHR ''-'') Optional # Atom is_digit Greedy_Plus #
      Atom (is_char CHR ''.'') Once #
      Atom is_digit Greedy_Plus # Group_Close # r) s (st\<lparr>cur := Some []\<rparr>) = Some m"
    by (simp add: open_group_def)
  then obtain sg s0 where sg: "s = sg @ s0" "sg = [] \<or> sg = ''-''"
    and "re_match (Atom is_digit Greedy_Plus # Atom (is_char CHR ''.'') Once #
      Atom is_digit Greedy_Plus # Group_Close # r) s0 (st\<lparr>cur := Some sg\<rparr>) = Some m"
    by (elim optional_inv) (auto simp: is_char_def)
  then obtain a s1 where a: "s0 = a @ s1" "a \<noteq> []" "list_all is_digit a"
    and "re_match (Atom (is_char CHR ''.'') Once # Atom is_digit Greedy_Plus # Group_Close # r)
      s1 (st\<lparr>cur := Some (sg @ a)\<rparr>) = Some m"
    by (elim plus_inv) simp
  then obtain c s2 where c: "s1 = c # s2" "is_char CHR ''.'' c"
    and "re_match (Atom is_digit Greedy_Plus # Group_Close # r)
      s2 (st\<lparr>cur := Some (sg @ a @ [c])\<rparr>) = Some m"
    by (elim once_inv) simp
  then obtain b s3 where b: "s2 = b @ s3" "b \<noteq> []" "list_all is_digit b"
    and "re_match (Group_Close # r) s3 (st\<lparr>cur := Some (sg @ a @ [c] @ b)\<rparr>) = Some m"
    by (elim plus_inv) simp
  then have m: "re_match r s3 (st\<lparr>cur := None, groups := groups st @ [sg @ a @ CHR ''.'' # b]\<rparr>) = Some m"
    using c by (simp add: is_char_def)
  have d: "decimal (a @ CHR ''.'' # b)" using a b by (simp add: decimalI)
  have "is_digit (hd a)" using a by (cases a) auto
  then have "hd a \<noteq> CHR ''-''" by (simp add: digit_not_sign)
  with d sg a have "signed_decimal (sg @ a @ CHR ''.'' # b)"
    by (cases a) (auto simp: signed_decimal_def)
  moreover have "s = (sg @ a @ CHR ''.'' # b) @ s3" using sg a b c by (simp add: is_char_def)
  ultimately show ?thesis using m by (rule that)
qed

lemma cur_init [simp]: "cur init = None"
  by (simp add: init_def)

lemma groups_init [simp]: "groups init = []"
  by (simp add: init_def)

lemma re_search_inv:
  "re_search p s = Some gs \<Longrightarrow> \<exists>t rest. suffix t s \<and> re_match p t init = Some (gs, rest)"
proof (induction s)
  case Nil
  then show ?case by auto
next
  case (Cons c cs)
  show ?case
  proof (cases "re_match p (c # cs) init")
    case None
    with Cons.prems have "re_search p cs = Some gs" by simp
    from Cons.IH [OF this] obtain t rest where "suffix t cs" "re_match p t init = Some (gs, rest)"
      by blast
    then have "suffix t (c # cs) \<and> re_match p t init = Some (gs, rest)"
      by (simp add: suffix_Cons)
    then show ?thesis by blast
  next
    case (Some m)
    with Cons.prems have "suffix (c # cs) (c # cs) \<and> re_match p (c # cs) init = Some (gs, snd m)"
      by auto
    then show ?thesis by blast
  qed
qed

lemma heat_of_formation_match:
  assumes "re_match heat_of_formation_re t init = Some (gs, rest)"
  shows "\<exists>g. gs = [g] \<and> signed_decimal g"
proof -
  from assms obtain s1 where "re_match ([Atom is_space Greedy_Plus,
      Group_Open, Atom (is_char CHR ''-'') Optional, Atom is_digit Greedy_Plus,
      Atom (is_char CHR ''.'') Once, Atom is_digit Greedy_Plus, Group_Close]) s1 init
      = Some (gs, rest)"
    unfolding heat_of_formation_re_def by (elim lit_inv) (simp del: re_match.simps)
  then obtain s2 where "re_match ([Group_Open, Atom (is_char CHR ''-'') Optional,
      Atom is_digit Greedy_Plus, Atom (is_char CHR ''.'') Once, Atom is_digit Greedy_Plus,
      Group_Close] @ []) s2 init = Some (gs, rest)"
    by (rule plus_inv) (simp del: re_match.simps)
  then obtain g s3 where "signed_decimal g"
      "re_match [] s3 (init\<lparr>cur := None, groups := groups init @ [g]\<rparr>) = Some (gs, rest)"
    by (rule signed_decimal_group)
  then show ?thesis by auto
qed

lemma total_energy_match:
  assumes "re_match total_energy_re t init = Some (gs, rest)"
  shows "\<exists>g. gs = [g] \<and> signed_decimal g"
proof -
  from assms obtain s1 where "re_match ([Atom is_space Greedy_Plus,
      Atom (is_char CHR ''='') Once, Atom is_space Greedy_Plus,
      Group_Open, Atom (is_char CHR ''-'') Optional, Atom is_digit Greedy_Plus,
      Atom (is_char CHR ''.'') Once, Atom is_digit Greedy_Plus, Group_Close]) s1 init
      = Some (gs, rest)"
    unfolding total_energy_re_def by (elim lit_inv) (simp del: re_match.simps)
  then obtain s2 where "re_match ([Atom (is_char CHR ''='') Once, Atom is_space Greedy_Plus,
      Group_Open, Atom (is_char CHR ''-'') Optional, Atom is_digit Greedy_Plus,
      Atom (is_char CHR ''.'') Once, Atom is_digit Greedy_Plus, Group_Close]) s2 init
      = Some (gs, rest)"
    by (rule plus_inv) (simp del: re_match.simps)
  then obtain s3 where "re_match ([Atom is_space Greedy_Plus,
      Group_Open, Atom (is_char CHR ''-'') Optional, Atom is_digit Greedy_Plus,
      Atom (is_char CHR ''.'') Once, Atom is_digit Greedy_Plus, Group_Close]) s3 init
      = Some (gs, rest)"
    by (rule once_inv) (simp del: re_match.simps)
  then obtain s4 where "re_match ([Group_Open, Atom (is_char CHR ''-'') Optional,
      Atom is_digit Greedy_Plus, Atom (is_char CHR ''.'') Once, Atom is_digit Greedy_Plus,
      Group_Close] @ []) s4 init = Some (gs, rest)"
    by (rule plus_inv) (simp del: re_match.simps)
  then obtain g s5 where "signed_decimal g"
      "re_match [] s5 (init\<lparr>cur := None, groups := groups init @ [g]\<rparr>) = Some (gs, rest)"
    by (rule signed_decimal_group)
  then show ?thesis by auto
qed

lemma decimal_signed: "decimal g \<Longrightarrow> signed_decimal g"
proof (erule decimalE)
  fix a b assume "g = a @ CHR ''.'' # b" "a \<noteq> []" "list_all is_digit a"
    and d: "b \<noteq> []" "list_all is_digit b"
  moreover from this have "hd a \<noteq> CHR ''-''" by (cases a) (auto simp: digit_not_sign)
  ultimately show "signed_decimal g"
    by (cases a) (auto simp: signed_decimal_def decimalI [of "_ # _", simplified])
qed

lemma bond_length_match:
  assumes "re_match bond_length_re t init = Some (gs, rest)"
  shows "\<exists>g. gs = [g] \<and> decimal g"
proof -
  from assms obtain s1 where "re_match ([Atom any_char Lazy_Star, Atom (is_char newline) Once,
      Atom is_space Greedy_Star, Atom is_digit Greedy_Plus,
      Atom is_space Greedy_Plus, Atom is_upper_AZ Greedy_Plus,
      Atom is_space Greedy_Plus,
      Group_Open, Atom is_digit Greedy_Plus, Atom (is_char CHR ''.'') Once,
      Atom is_digit Greedy_Plus, Group_Close,
      Atom is_space Greedy_Plus, Atom (is_char CHR ''*'') Once]) s1 init = Some (gs, rest)"
    unfolding bond_length_re_def by (elim lit_inv) (simp del: re_match.simps)
  then obtain s2 where "re_match ([Atom (is_char newline) Once,
      Atom is_space Greedy_Star, Atom is_digit Greedy_Plus,
      Atom is_space Greedy_Plus, Atom is_upper_AZ Greedy_Plus,
      Atom is_space Greedy_Plus,
      Group_Open, Atom is_digit Greedy_Plus, Atom (is_char CHR ''.'') Once,
      Atom is_digit Greedy_Plus, Group_Close,
      Atom is_space Greedy_Plus, Atom (is_char CHR ''*'') Once]) s2 init = Some (gs, rest)"
    by (rule lazy_inv) (simp del: re_match.simps)
  then obtain s3 where "re_match ([
      Atom is_space Greedy_Star, Atom is_digit Greedy_Plus,
      Atom is_space Greedy_Plus, Atom is_upper_AZ Greedy_Plus,
      Atom is_space Greedy_Plus,
      Group_Open, Atom is_digit Greedy_Plus, Atom (is_char CHR ''.'') Once,
      Atom is_digit Greedy_Plus, Group_Close,
      Atom is_space Greedy_Plus, Atom (is_char CHR ''*'') Once]) s3 init = Some (gs, rest)"
    by (rule once_inv) (simp del: re_match.simps)
  then obtain s4 where "re_match ([Atom is_digit Greedy_Plus,
      Atom is_space Greedy_Plus, Atom is_upper_AZ Greedy_Plus,
      Atom is_space Greedy_Plus,
      Group_Open, Atom is_digit Greedy_Plus, Atom (is_char CHR ''.'') Once,
      Atom is_digit Greedy_Plus, Group_Close,
      Atom is_space Greedy_Plus, Atom (is_char CHR ''*'') Once]) s4 init = Some (gs, rest)"
    by (rule star_inv) (simp del: re_match.simps)
  then obtain s5 where "re_match ([
      Atom is_space Greedy_Plus, Atom is_upper_AZ Greedy_Plus,
      Atom is_space Greedy_Plus,
      Group_Open, Atom is_digit Greedy_Plus, Atom (is_char CHR ''.'') Once,
      Atom is_digit Greedy_Plus, Group_Close,
      Atom is_space Greedy_Plus, Atom (is_char CHR ''*'') Once]) s5 init = Some (gs, rest)"
    by (rule plus_inv) (simp del: re_match.simps)
  then obtain s6 where "re_match ([Atom is_upper_AZ Greedy_Plus,
      Atom is_space Greedy_Plus,
      Group_Open, Atom is_digit Greedy_Plus, Atom (is_char CHR ''.'') Once,
      Atom is_digit Greedy_Plus, Group_Close,
      Atom is_space Greedy_Plus, Atom (is_char CHR ''*'') Once]) s6 init = Some (gs, rest)"
    by (rule plus_inv) (simp del: re_match.simps)
  then obtain s7 where "re_match ([
      Atom is_space Greedy_Plus,
      Group_Open, Atom is_digit Greedy_Plus, Atom (is_char CHR ''.'') Once,
      Atom is_digit Greedy_Plus, Group_Close,
      Atom is_space Greedy_Plus, Atom (is_char CHR ''*'') Once]) s7 init = Some (gs, rest)"
    by (rule plus_inv) (simp del: re_match.simps)
  then obtain s8 where "re_match ([
      Group_Open, Atom is_digit Greedy_Plus, Atom (is_char CHR ''.'') Once,
      Atom is_digit Greedy_Plus, Group_Close] @
      [Atom is_space Greedy_Plus, Atom (is_char CHR ''*'') Once]) s8 init = Some (gs, rest)"
    by (rule plus_inv) (simp del: re_match.simps)
  then obtain g s9 where g: "decimal g" and
      "re_match [Atom is_space Greedy_Plus, Atom (is_char CHR ''*'') Once] s9
        (init\<lparr>cur := None, groups := groups init @ [g]\<rparr>) = Some (gs, rest)"
    by (rule decimal_group)
  from this(2) obtain s10 where "re_match [Atom (is_char CHR ''*'') Once] s10
        (init\<lparr>cur := None, groups := groups init @ [g]\<rparr>) = Some (gs, rest)"
    by (rule plus_inv) (simp del: re_match.simps)
  then obtain s11 where "re_match [] s11
        (init\<lparr>cur := None, groups := groups init @ [g]\<rparr>) = Some (gs, rest)"
    by (rule once_inv) (simp del: re_match.simps)
  with g show ?thesis by auto
qed

lemma float_group1_signed:
  assumes "\<And>gs. m = Some gs \<Longrightarrow> \<exists>g. gs = [g] \<and> signed_decimal g"
  shows "float_group1 m = Inr PyNone \<and> m = None \<or>
         (\<exists>g. signed_decimal g \<and> m = Some [g] \<and> float_group1 m = Inr (PyFloat g))"
proof (cases m)
  case None
  then show ?thesis by (simp add: float_group1_def)
next
  case (Some gs)
  with assms obtain g where "gs = [g]" "signed_decimal g" by blast
  with Some show ?thesis
    by (simp add: float_group1_def group_def py_float_signed_decimal)
qed

lemma extract_heat_of_formation_cases:
  "extract_heat_of_formation text = Inr PyNone \<and> re_search heat_of_formation_re text = None \<or>
   (\<exists>g. signed_decimal g \<and> re_search heat_of_formation_re text = Some [g] \<and>
        extract_heat_of_formation text = Inr (PyFloat g))"
  unfolding extract_heat_of_formation_def
  by (rule float_group1_signed) (blast dest: re_search_inv heat_of_formation_match)

lemma extract_total_energy_cases:
  "extract_total_energy text = Inr PyNone \<and> re_search total_energy_re text = None \<or>
   (\<exists>g. signed_decimal g \<and> re_search total_energy_re text = Some [g] \<and>
        extract_total_energy text = Inr (PyFloat g))"
  unfolding extract_total_energy_def
  by (rule float_group1_signed) (blast dest: re_search_inv total_energy_match)

lemma extract_bond_length_cases:
  "extract_bond_length text = Inr PyNone \<and> re_search bond_length_re text = None \<or>
   (\<exists>g. signed_decimal g \<and> re_search bond_length_re text = Some [g] \<and>
        extract_bond_length text = Inr (PyFloat g))"
  unfolding extract_bond_length_def
  by (rule float_group1_signed) (blast dest: re_search_inv bond_length_match decimal_signed)

subsection \<open>What the wall-clock pattern matches\<close>

lemma wall_clock_match:
  assumes "re_match wall_clock_re t init = Some (gs, rest)"
  shows "\<exists>ws g. t = ''TOTAL WALL CLOCK TIME='' @ ws @ g @ rest \<and> ws \<noteq> [] \<and>
           list_all is_space ws \<and> decimal g \<and> gs = [g]"
proof -
  from assms obtain s1 where s1: "t = ''TOTAL WALL CLOCK TIME='' @ s1" and
    "re_match ([Atom is_space Greedy_Plus,
      Group_Open, Atom is_digit Greedy_Plus, Atom (is_char CHR ''.'') Once,
      Atom is_digit Greedy_Plus, Group_Close]) s1 init = Some (gs, rest)"
    unfolding wall_clock_re_def by (elim lit_inv) (simp del: re_match.simps)
  from this(2) obtain ws s2 where ws: "s1 = ws @ s2" "ws \<noteq> []" "list_all is_space ws" and
    "re_match ([Group_Open, Atom is_digit Greedy_Plus, Atom (is_char CHR ''.'') Once,
      Atom is_digit Greedy_Plus, Group_Close] @ []) s2 init = Some (gs, rest)"
    by (rule plus_inv) (simp del: re_match.simps)
  from this(4) obtain g s3 where g: "decimal g" "s2 = g @ s3" and
      "re_match [] s3 (init\<lparr>cur := None, groups := groups init @ [g]\<rparr>) = Some (gs, rest)"
    by (rule decimal_group)
  then have "gs = [g]" "s3 = rest" by auto
  with s1 ws g show ?thesis by auto
qed

lemma re_match_suffix: "re_match p s st = Some m \<Longrightarrow> suffix (snd m) s"
proof (induction p s st rule: re_match.induct)
  case (1 s st)
  then show ?case by auto
next
  case (2 r s st)
  then show ?case by simp
next
  case (3 r s st)
  then show ?case by simp
next
  case (4 r s st)
  then show ?case by (cases s) (auto split: if_splits)
next
  case (5 p r s st)
  then show ?case by (cases s) (auto split: if_splits simp: suffix_Cons)
next
  case (6 p r s st)
  then show ?case by (cases s) (auto split: if_splits option.splits simp: suffix_Cons)
next
  case (7 p r s st)
  then show ?case by (cases s) (auto split: if_splits option.splits simp: suffix_Cons)
next
  case (8 p r s st)
  then show ?case by (cases s) (auto split: if_splits simp: suffix_Cons)
next
  case (9 p r s st)
  then show ?case by (cases s) (auto split: if_splits option.splits simp: suffix_Cons)
qed

lemma re_findall_inv:
  "x \<in> set (re_findall p s) \<Longrightarrow>
   \<exists>t gs rest. suffix t s \<and> re_match p t init = Some (gs, rest) \<and> x = group1 gs"
proof (induction p s rule: re_findall.induct)
  case (1 p s)
  show ?case
  proof (cases "re_match p s init")
    case None
    with "1.prems" obtain c cs where s: "s = c # cs" and x: "x \<in> set (re_findall p cs)"
      by (cases s) (auto simp: re_findall.simps [of p s])
    from "1.IH"(1) [OF None s x] obtain t gs rest where
      "suffix t cs" "re_match p t init = Some (gs, rest)" "x = group1 gs" by blast
    with s have "suffix t s \<and> re_match p t init = Some (gs, rest) \<and> x = group1 gs"
      by (simp add: suffix_Cons)
    then show ?thesis by blast
  next
    case (Some m)
    obtain gs rest where m: "m = (gs, rest)" by (cases m)
    show ?thesis
    proof (cases "x = group1 gs")
      case True
      with Some m have "suffix s s \<and> re_match p s init = Some (gs, rest) \<and> x = group1 gs"
        by simp
      then show ?thesis by blast
    next
      case False
      show ?thesis
      proof (cases "length rest < length s")
        case True
        with Some m False "1.prems" have x: "x \<in> set (re_findall p rest)"
          by (simp add: re_findall.simps [of p s])
        from "1.IH"(2) [OF Some m [symmetric] True x] obtain t gs' rest' where
          t: "suffix t rest" "re_match p t init = Some (gs', rest')" "x = group1 gs'" by blast
        have "suffix rest s" using re_match_suffix [OF Some] m by simp
        with t have "suffix t s \<and> re_match p t init = Some (gs', rest') \<and> x = group1 gs'"
          using suffix_order.trans by blast
        then show ?thesis by blast
      next
        case nl: False
        with Some m False "1.prems" obtain c cs where s: "s = c # cs"
          and x: "x \<in> set (re_findall p cs)"
          by (cases s) (auto simp: re_findall.simps [of p s])
        from "1.IH"(3) [OF Some m [symmetric] nl s x] obtain t gs' rest' where
          "suffix t cs" "re_match p t init = Some (gs', rest')" "x = group1 gs'" by blast
        with s have "suffix t s \<and> re_match p t init = Some (gs', rest') \<and> x = group1 gs'"
          by (simp add: suffix_Cons)
        then show ?thesis by blast
      qed
    qed
  qed
qed

lemma run_time_cases:
  "run_time text = PyNone \<and> re_findall wall_clock_re text = [] \<or>
   (\<exists>g. decimal g \<and> run_time text = PyStr g)"
proof (cases "re_findall wall_clock_re text = []")
  case True
  then show ?thesis by (simp add: run_time_def)
next
  case False
  then have "last (re_findall wall_clock_re text) \<in> set (re_findall wall_clock_re text)"
    by simp
  then obtain t gs rest where "re_match wall_clock_re t init = Some (gs, rest)"
      "last (re_findall wall_clock_re text) = group1 gs"
    by (blast dest: re_findall_inv)
  moreover from this(1) obtain g where "gs = [g]" "decimal g"
    by (blast dest: wall_clock_match)
  ultimately have "decimal g \<and> run_time text = PyStr g"
    using False by (simp add: run_time_def group1_def)
  then show ?thesis by blast
qed

section \<open>The pattern extractors\<close>

text \<open>
  Claim C7. Each of the four extractors returns for every text: the three that call
  \<^verbatim>\<open>float\<close> never raise (the result is never an error), and a pattern that does not
  match yields \<^verbatim>\<open>None\<close>. The extractors are functions of the text alone, so there is
  nothing they could mutate; \<open>run_time\<close> calls nothing that can raise.
\<close>

theorem extractors_never_raise:
  "(\<exists>v. extract_bond_length text = Inr v) \<and>
   (\<exists>v. extract_heat_of_formation text = Inr v) \<and>
   (\<exists>v. extract_total_energy text = Inr v) \<and>
   (re_search bond_length_re text = None \<longrightarrow> extract_bond_length text = Inr PyNone) \<and>
   (re_search heat_of_formation_re text = None \<longrightarrow>
      extract_heat_of_formation text = Inr PyNone) \<and>
   (re_search total_energy_re text = None \<longrightarrow> extract_total_energy text = Inr PyNone) \<and>
   (re_findall wall_clock_re text = [] \<longrightarrow> run_time text = PyNone)"
proof -
  have "\<exists>v. extract_bond_length text = Inr v"
    using extract_bond_length_cases [of "text"] by blast
  moreover have "\<exists>v. extract_heat_of_formation text = Inr v"
    using extract_heat_of_formation_cases [of "text"] by blast
  moreover have "\<exists>v. extract_total_energy text = Inr v"
    using extract_total_energy_cases [of "text"] by blast
  moreover have "re_search bond_length_re text = None \<longrightarrow> extract_bond_length text = Inr PyNone"
    by (simp add: extract_bond_length_def float_group1_def)
  moreover have "re_search heat_of_formation_re text = None \<longrightarrow>
      extract_heat_of_formation text = Inr PyNone"
    by (simp add: extract_heat_of_formation_def float_group1_def)
  moreover have "re_search total_energy_re text = None \<longrightarrow>
      extract_total_energy text = Inr PyNone"
    by (simp add: extract_total_energy_def float_group1_def)
  moreover have "re_findall wall_clock_re text = [] \<longrightarrow> run_time text = PyNone"
    by (simp add: run_time_def)
  ultimately show ?thesis by blast
qed

theorem extractors_never_raise_witness:
  "extract_bond_length ''HEAT OF FORMATION IS x'' = Inr PyNone \<and>
   extract_heat_of_formation ''HEAT OF FORMATION IS x'' = Inr PyNone \<and>
   extract_total_energy ''HEAT OF FORMATION IS x'' = Inr PyNone \<and>
   run_time ''HEAT OF FORMATION IS x'' = PyNone"
proof -
  have 1: "re_search bond_length_re ''HEAT OF FORMATION IS x'' = None" by code_simp
  have 2: "re_search heat_of_formation_re ''HEAT OF FORMATION IS x'' = None" by code_simp
  have 3: "re_search total_energy_re ''HEAT OF FORMATION IS x'' = None" by code_simp
  have 4: "re_findall wall_clock_re ''HEAT OF FORMATION IS x'' = []" by code_simp
  from extractors_never_raise [of "''HEAT OF FORMATION IS x''"] 1 2 3 4
  show ?thesis by blast
qed

text \<open>
  Claim C8, as stated, fails: \<open>run_time\<close> returns the text of the match, a string (its
  annotation is \<^verbatim>\<open>-> str | None\<close>), not a float.
\<close>

theorem run_time_not_float:
  "run_time ''TOTAL WALL CLOCK TIME= 45.6'' = PyStr ''45.6'' \<and>
   \<not> is_float (run_time ''TOTAL WALL CLOCK TIME= 45.6'')"
  by code_simp

text \<open>
  Claim C8, amended. BondLength, HeatOfFormation and TotalEnergy are each absent or a
  float, converted from a decimal with an optional minus sign; RunTime is absent or the
  decimal text of the match, a string and not a float.
\<close>

theorem extracted_field_types:
  "(extract_bond_length text = Inr PyNone \<or>
      (\<exists>g. signed_decimal g \<and> extract_bond_length text = Inr (PyFloat g))) \<and>
   (extract_heat_of_formation text = Inr PyNone \<or>
      (\<exists>g. signed_decimal g \<and> extract_heat_of_formation text = Inr (PyFloat g))) \<and>
   (extract_total_energy text = Inr PyNone \<or>
      (\<exists>g. signed_decimal g \<and> extract_total_energy text = Inr (PyFloat g))) \<and>
   (run_time text = PyNone \<or> (\<exists>g. decimal g \<and> run_time text = PyStr g)) \<and>
   (run_time text \<noteq> PyNone \<longrightarrow> is_str (run_time text) \<and> \<not> is_float (run_time text))"
proof -
  have "run_time text \<noteq> PyNone \<longrightarrow> is_str (run_time text) \<and> \<not> is_float (run_time text)"
    using run_time_cases [of "text"] by (auto simp: is_str_def is_float_def)
  then show ?thesis
    using extract_bond_length_cases [of "text"] extract_heat_of_formation_cases [of "text"]
      extract_total_energy_cases [of "text"] run_time_cases [of "text"]
    by blast
qed

theorem extracted_field_types_witness:
  "is_str (run_time ''TOTAL WALL CLOCK TIME= 45.6'') \<and>
   \<not> is_float (run_time ''TOTAL WALL CLOCK TIME= 45.6'')"
proof -
  have "run_time ''TOTAL WALL CLOCK TIME= 45.6'' \<noteq> PyNone" by code_simp
  with extracted_field_types [of "''TOTAL WALL CLOCK TIME= 45.6''"]
  show ?thesis by blast
qed

section \<open>The main loop\<close>

lemma glob_log_not_readme: "matches_glob_log name \<Longrightarrow> py_lower name \<noteq> ''readme.txt''"
proof
  assume "matches_glob_log name" and "py_lower name = ''readme.txt''"
  then have "suffix ''.log'' ''readme.txt''" by (simp add: matches_glob_log_def)
  then show False by (simp add: suffix_def append_eq_Cons_conv)
qed

lemma loop_body_eq:
  "\<exists>bond heat energy.
     extract_bond_length contents = Inr bond \<and>
     extract_heat_of_formation contents = Inr heat \<and>
     extract_total_energy contents = Inr energy \<and>
     loop_body name contents results =
       Inr (if \<not> contains terminated_normally contents
            then results @ [make_row (fst (resolve_metadata name contents)) bond heat energy
                              (run_time contents) ''Incomplete'']
            else if bond \<noteq> PyNone \<or> heat \<noteq> PyNone \<or> energy \<noteq> PyNone
            then results @ [make_row (fst (resolve_metadata name contents)) bond heat energy
                              (run_time contents) ''Completed'']
            else results)"
proof -
  obtain bond where b: "extract_bond_length contents = Inr bond"
    using extract_bond_length_cases [of contents] by blast
  obtain heat where h: "extract_heat_of_formation contents = Inr heat"
    using extract_heat_of_formation_cases [of contents] by blast
  obtain energy where e: "extract_total_energy contents = Inr energy"
    using extract_total_energy_cases [of contents] by blast
  show ?thesis
    by (simp add: loop_body_def b h e Let_def)
qed

lemma process_file_eq:
  assumes "py_lower name \<noteq> ''readme.txt''"
  shows "\<exists>bond heat energy.
     extract_bond_length contents = Inr bond \<and>
     extract_heat_of_formation contents = Inr heat \<and>
     extract_total_energy contents = Inr energy \<and>
     process_file results (name, contents) =
       (if \<not> contains terminated_normally contents
            then results @ [make_row (fst (resolve_metadata name contents)) bond heat energy
                              (run_time contents) ''Incomplete'']
            else if bond \<noteq> PyNone \<or> heat \<noteq> PyNone \<or> energy \<noteq> PyNone
            then results @ [make_row (fst (resolve_metadata name contents)) bond heat energy
                              (run_time contents) ''Completed'']
            else results)"
proof -
  from loop_body_eq [of contents name results] obtain bond heat energy where
    x: "extract_bond_length contents = Inr bond"
     "extract_heat_of_formation contents = Inr heat"
     "extract_total_energy contents = Inr energy"
     "loop_body name contents results =
       Inr (if \<not> contains terminated_normally contents
            then results @ [make_row (fst (resolve_metadata name contents)) bond heat energy
                              (run_time contents) ''Incomplete'']
            else if bond \<noteq> PyNone \<or> heat \<noteq> PyNone \<or> energy \<noteq> PyNone
            then results @ [make_row (fst (resolve_metadata name contents)) bond heat energy
                              (run_time contents) ''Completed'']
            else results)"
    by blast
  from assms x(4) have "process_file results (name, contents) =
       (if \<not> contains terminated_normally contents
            then results @ [make_row (fst (resolve_metadata name contents)) bond heat energy
                              (run_time contents) ''Incomplete'']
            else if bond \<noteq> PyNone \<or> heat \<noteq> PyNone \<or> energy \<noteq> PyNone
            then results @ [make_row (fst (resolve_metadata name contents)) bond heat energy
                              (run_time contents) ''Completed'']
            else results)"
    by (simp only: process_file_def prod.case if_False sum.case)
  with x(1-3) show ?thesis by blast
qed

lemma cell_Completion [simp]: "cell (make_row m b h e t c) ''Completion'' = Some (PyStr c)"
  by (cases m) (simp add: make_row_def cell_def bond_length_column_def)

text \<open>
  Claim C1. For a file the loop receives (its name matches \<^verbatim>\<open>*.log\<close>): without the
  marker \<^verbatim>\<open>EXECUTION OF GAMESS TERMINATED NORMALLY\<close> in the text, one row labelled
  Incomplete is appended, and it holds the resolved metadata and each extracted field,
  or \<^verbatim>\<open>'NA'\<close> for a field that is absent; with the marker and at least one of bond
  length, heat of formation and total energy present, the same row labelled Completed is
  appended; with the marker and none of the three, nothing is appended.
\<close>

theorem completion_classification:
  assumes "matches_glob_log name"
  shows "\<exists>bond heat energy molecule ff basis meth.
     extract_bond_length contents = Inr bond \<and>
     extract_heat_of_formation contents = Inr heat \<and>
     extract_total_energy contents = Inr energy \<and>
     fst (resolve_metadata name contents) = (molecule, ff, basis, meth) \<and>
     (\<not> contains terminated_normally contents \<longrightarrow>
        process_file results (name, contents) = results @
          [[(''molecule'', molecule),
            (''force_field'', ff),
            (''basis'', basis),
            (''comp_method'', meth),
            (''bond_length ('' @ [CHR 0xC5] @ '')'',
               if bond = PyNone then PyStr ''NA'' else bond),
            (''heat_of_formation (kcal/mol)'',
               if heat = PyNone then PyStr ''NA'' else heat),
            (''Total Energy (Hartrees)'',
               if energy = PyNone then PyStr ''NA'' else energy),
            (''Run_Time (s)'',
               if run_time contents = PyNone then PyStr ''NA'' else run_time contents),
            (''Completion'', PyStr ''Incomplete'')]]) \<and>
     (contains terminated_normally contents \<and>
      (bond \<noteq> PyNone \<or> heat \<noteq> PyNone \<or> energy \<noteq> PyNone) \<longrightarrow>
        process_file results (name, contents) = results @
          [[(''molecule'', molecule),
            (''force_field'', ff),
            (''basis'', basis),
            (''comp_method'', meth),
            (''bond_length ('' @ [CHR 0xC5] @ '')'',
               if bond = PyNone then PyStr ''NA'' else bond),
            (''heat_of_formation (kcal/mol)'',
               if heat = PyNone then PyStr ''NA'' else heat),
            (''Total Energy (Hartrees)'',
               if energy = PyNone then PyStr ''NA'' else energy),
            (''Run_Time (s)'',
               if run_time contents = PyNone then PyStr ''NA'' else run_time contents),
            (''Completion'', PyStr ''Completed'')]]) \<and>
     (contains terminated_normally contents \<and>
      bond = PyNone \<and> heat = PyNone \<and> energy = PyNone \<longrightarrow>
        process_file results (name, contents) = results)"
proof -
  from assms have "py_lower name \<noteq> ''readme.txt''" by (rule glob_log_not_readme)
  from process_file_eq [OF this, of contents results] obtain bond heat energy where
    x: "extract_bond_length contents = Inr bond"
     "extract_heat_of_formation contents = Inr heat"
     "extract_total_energy contents = Inr energy"
     and p: "process_file results (name, contents) =
       (if \<not> contains terminated_normally contents
            then results @ [make_row (fst (resolve_metadata name contents)) bond heat energy
                              (run_time contents) ''Incomplete'']
            else if bond \<noteq> PyNone \<or> heat \<noteq> PyNone \<or> energy \<noteq> PyNone
            then results @ [make_row (fst (resolve_metadata name contents)) bond heat energy
                              (run_time contents) ''Completed'']
            else results)"
    by blast
  obtain molecule ff basis meth where
    m: "fst (resolve_metadata name contents) = (molecule, ff, basis, meth)"
    by (metis prod_cases4)
  have r: "make_row (molecule, ff, basis, meth) bond heat energy (run_time contents) c =
          [(''molecule'', molecule),
            (''force_field'', ff),
            (''basis'', basis),
            (''comp_method'', meth),
            (''bond_length ('' @ [CHR 0xC5] @ '')'',
               if bond = PyNone then PyStr ''NA'' else bond),
            (''heat_of_formation (kcal/mol)'',
               if heat = PyNone then PyStr ''NA'' else heat),
            (''Total Energy (Hartrees)'',
               if energy = PyNone then PyStr ''NA'' else energy),
            (''Run_Time (s)'',
               if run_time contents = PyNone then PyStr ''NA'' else run_time contents),
            (''Completion'', PyStr c)]" for c
    by (simp add: make_row_def or_NA_def)
  have 1: "\<not> contains terminated_normally contents \<longrightarrow>
        process_file results (name, contents) = results @
          [make_row (molecule, ff, basis, meth) bond heat energy (run_time contents)
             ''Incomplete'']"
    by (simp add: p m)
  have 2: "contains terminated_normally contents \<and>
      (bond \<noteq> PyNone \<or> heat \<noteq> PyNone \<or> energy \<noteq> PyNone) \<longrightarrow>
        process_file results (name, contents) = results @
          [make_row (molecule, ff, basis, meth) bond heat energy (run_time contents)
             ''Completed'']"
    by (simp add: p m)
  have 3: "contains terminated_normally contents \<and>
      bond = PyNone \<and> heat = PyNone \<and> energy = PyNone \<longrightarrow>
        process_file results (name, contents) = results"
    by (simp add: p)
  from x m 1 2 3 show ?thesis unfolding r by blast
qed

theorem completion_classification_witness:
  "process_file [] (''a_b_c_d.log'', ''TOTAL ENERGY = -1.5'') =
     [[(''molecule'', PyStr ''a''), (''force_field'', PyStr ''b''), (''basis'', PyStr ''c''),
       (''comp_method'', PyStr ''d''),
       (''bond_length ('' @ [CHR 0xC5] @ '')'', PyStr ''NA''),
       (''heat_of_formation (kcal/mol)'', PyStr ''NA''),
       (''Total Energy (Hartrees)'', PyFloat ''-1.5''),
       (''Run_Time (s)'', PyStr ''NA''),
       (''Completion'', PyStr ''Incomplete'')]] \<and>
   process_file []
     (''a_b_c_d.log'', ''TOTAL ENERGY = -1.5  EXECUTION OF GAMESS TERMINATED NORMALLY'') =
     [[(''molecule'', PyStr ''a''), (''force_field'', PyStr ''b''), (''basis'', PyStr ''c''),
       (''comp_method'', PyStr ''d''),
       (''bond_length ('' @ [CHR 0xC5] @ '')'', PyStr ''NA''),
       (''heat_of_formation (kcal/mol)'', PyStr ''NA''),
       (''Total Energy (Hartrees)'', PyFloat ''-1.5''),
       (''Run_Time (s)'', PyStr ''NA''),
       (''Completion'', PyStr ''Completed'')]] \<and>
   process_file [] (''a_b_c_d.log'', ''EXECUTION OF GAMESS TERMINATED NORMALLY'') = []"
proof -
  have g: "matches_glob_log ''a_b_c_d.log''" by code_simp
  let ?c1 = "''TOTAL ENERGY = -1.5''"
  let ?c2 = "''TOTAL ENERGY = -1.5  EXECUTION OF GAMESS TERMINATED NORMALLY''"
  let ?c3 = "''EXECUTION OF GAMESS TERMINATED NORMALLY''"
  have e1: "extract_bond_length ?c1 = Inr PyNone" "extract_heat_of_formation ?c1 = Inr PyNone"
    "extract_total_energy ?c1 = Inr (PyFloat ''-1.5'')" "run_time ?c1 = PyNone"
    "fst (resolve_metadata ''a_b_c_d.log'' ?c1) = (PyStr ''a'', PyStr ''b'', PyStr ''c'', PyStr ''d'')"
    "\<not> contains terminated_normally ?c1"
    by code_simp+
  have e2: "extract_bond_length ?c2 = Inr PyNone" "extract_heat_of_formation ?c2 = Inr PyNone"
    "extract_total_energy ?c2 = Inr (PyFloat ''-1.5'')" "run_time ?c2 = PyNone"
    "fst (resolve_metadata ''a_b_c_d.log'' ?c2) = (PyStr ''a'', PyStr ''b'', PyStr ''c'', PyStr ''d'')"
    "contains terminated_normally ?c2"
    by code_simp+
  have e3: "extract_bond_length ?c3 = Inr PyNone" "extract_heat_of_formation ?c3 = Inr PyNone"
    "extract_total_energy ?c3 = Inr PyNone"
    "contains terminated_normally ?c3"
    by code_simp+
  from completion_classification [OF g, of ?c1 "[]"] e1
  have 1: "process_file [] (''a_b_c_d.log'', ?c1) =
     [[(''molecule'', PyStr ''a''), (''force_field'', PyStr ''b''), (''basis'', PyStr ''c''),
       (''comp_method'', PyStr ''d''),
       (''bond_length ('' @ [CHR 0xC5] @ '')'', PyStr ''NA''),
       (''heat_of_formation (kcal/mol)'', PyStr ''NA''),
       (''Total Energy (Hartrees)'', PyFloat ''-1.5''),
       (''Run_Time (s)'', PyStr ''NA''),
       (''Completion'', PyStr ''Incomplete'')]]"
    by auto
  from completion_classification [OF g, of ?c2 "[]"] e2
  have 2: "process_file [] (''a_b_c_d.log'', ?c2) =
     [[(''molecule'', PyStr ''a''), (''force_field'', PyStr ''b''), (''basis'', PyStr ''c''),
       (''comp_method'', PyStr ''d''),
       (''bond_length ('' @ [CHR 0xC5] @ '')'', PyStr ''NA''),
       (''heat_of_formation (kcal/mol)'', PyStr ''NA''),
       (''Total Energy (Hartrees)'', PyFloat ''-1.5''),
       (''Run_Time (s)'', PyStr ''NA''),
       (''Completion'', PyStr ''Completed'')]]"
    by auto
  from completion_classification [OF g, of ?c3 "[]"] e3
  have 3: "process_file [] (''a_b_c_d.log'', ?c3) = []"
    by auto
  from 1 2 3 show ?thesis by blast
qed

lemma process_file_rows:
  "process_file results (name, contents) = results \<or>
   (\<exists>bond heat energy completion.
      extract_bond_length contents = Inr bond \<and>
      extract_heat_of_formation contents = Inr heat \<and>
      extract_total_energy contents = Inr energy \<and>
      process_file results (name, contents) =
        results @ [make_row (fst (resolve_metadata name contents)) bond heat energy
                     (run_time contents) completion])"
proof (cases "py_lower name = ''readme.txt''")
  case True
  then show ?thesis by (simp add: process_file_def)
next
  case False
  from process_file_eq [OF this, of contents results] show ?thesis
    by (auto split: if_splits)
qed

lemma process_file_append: "process_file results file = results @ process_file [] file"
proof (cases "file")
  case (Pair name contents)
  show ?thesis
  proof (cases "py_lower name = ''readme.txt''")
    case True
    with Pair show ?thesis by (simp add: process_file_def)
  next
    case False
    from loop_body_eq [of contents name results] loop_body_eq [of contents name "[]"]
    show ?thesis using False Pair
      by (auto simp: process_file_def)
  qed
qed

lemma foldl_process_file:
  "foldl process_file results files = results @ concat (map (process_file []) files)"
proof (induction files arbitrary: results)
  case Nil
  then show ?case by simp
next
  case (Cons f fs)
  have "foldl process_file results (f # fs) = foldl process_file (process_file results f) fs"
    by simp
  also have "\<dots> = process_file results f @ concat (map (process_file []) fs)"
    by (rule Cons.IH)
  also have "\<dots> = results @ process_file [] f @ concat (map (process_file []) fs)"
    using process_file_append [of results f] by simp
  finally show ?case by simp
qed

text \<open>
  Claim C10. The rows a file contributes depend on the file alone, not on what the loop
  has collected before it: a turn of the loop appends to any list of results the rows it
  appends to the empty list, and the table is the concatenation of the rows of each
  file. There is no state beside the list of results, so a second run on the same files
  gives the same table.
\<close>

theorem no_hidden_state:
  "process_file results file = results @ process_file [] file \<and>
   main_loop files = concat (map (process_file []) files) \<and>
   main_loop (files @ files) = main_loop files @ main_loop files"
proof -
  have "main_loop files = concat (map (process_file []) files)"
    using foldl_process_file [of "[]" files] by (simp add: main_loop_def)
  moreover have "main_loop (files @ files) = main_loop files @ main_loop files"
    using foldl_process_file [of "[]" "files @ files"] foldl_process_file [of "[]" files]
    by (simp add: main_loop_def)
  ultimately show ?thesis using process_file_append [of results "file"] by blast
qed

theorem no_hidden_state_witness:
  "process_file [[(''Completion'', PyStr ''Completed'')]] (''a.log'', ''TOTAL ENERGY = -1.5'') =
     [[(''Completion'', PyStr ''Completed'')],
      make_row unresolved PyNone PyNone (PyFloat ''-1.5'') PyNone ''Incomplete'']"
proof -
  have "process_file [] (''a.log'', ''TOTAL ENERGY = -1.5'') =
     [make_row unresolved PyNone PyNone (PyFloat ''-1.5'') PyNone ''Incomplete'']"
    by code_simp
  with no_hidden_state [of "[[(''Completion'', PyStr ''Completed'')]]"
      "(''a.log'', ''TOTAL ENERGY = -1.5'')" "[]"]
  show ?thesis by simp
qed

section \<open>The metadata resolver\<close>

lemma dropWhile_hd: "dropWhile P xs \<noteq> [] \<Longrightarrow> \<not> P (hd (dropWhile P xs))"
  by (rule hd_dropWhile)

lemma trimmed_py_strip: "trimmed (py_strip s)"
proof (cases "py_strip s = []")
  case True
  then show ?thesis by (simp add: trimmed_def)
next
  case False
  let ?t = "dropWhile is_space s"
  let ?u = "dropWhile is_space (rev ?t)"
  from False have u: "?u \<noteq> []" by (simp add: py_strip_def)
  then have "\<not> is_space (hd ?u)" by (rule hd_dropWhile)
  with u have l: "\<not> is_space (last (py_strip s))"
    by (simp add: py_strip_def last_rev)
  have "rev (takeWhile is_space (rev ?t) @ ?u) = ?t"
    by (simp only: takeWhile_dropWhile_id rev_rev_ident)
  then have "rev ?u @ rev (takeWhile is_space (rev ?t)) = ?t"
    by (simp only: rev_append)
  then have t: "?t = py_strip s @ rev (takeWhile is_space (rev ?t))"
    by (simp only: py_strip_def)
  with False have "hd ?t = hd (py_strip s)"
    by (metis hd_append2)
  moreover from t False have "?t \<noteq> []"
    by (metis append_is_Nil_conv)
  then have "\<not> is_space (hd ?t)" by (rule hd_dropWhile)
  ultimately show ?thesis using l by (simp add: trimmed_def)
qed

lemma trimmed_Unknown: "trimmed ''Unknown''"
  by (simp add: trimmed_def is_space_def code_def)

lemma fallback_cases:
  "fallback_parse_input_section text = unresolved \<or>
   (\<exists>a c d. fallback_parse_input_section text =
        (PyStr a, PyStr ''Unknown'', PyStr c, PyStr d) \<and>
      trimmed a \<and> trimmed c \<and> trimmed d)"
proof (cases "fallback_body text")
  case (Inl e)
  then show ?thesis by (simp add: fallback_parse_input_section_def)
next
  case (Inr m)
  show ?thesis
  proof (cases "re_search input_card_re text")
    case None
    with Inr show ?thesis
      by (simp add: fallback_parse_input_section_def fallback_body_def)
  next
    case (Some gs)
    with Inr obtain g1 g2 where g: "group gs 1 = Inr g1" "group gs 2 = Inr g2"
      by (auto simp: fallback_body_def split: sum.splits)
    obtain meth basis where mb:
      "(if CHR ''/'' \<in> set (py_strip g2)
        then (case py_split1 CHR ''/'' (py_strip g2) of
                [m, b] \<Rightarrow> (m, b) | _ \<Rightarrow> (py_strip g2, ''Unknown''))
        else (py_strip g2, ''Unknown'')) = (meth, basis)"
      by (metis surj_pair)
    have "fallback_parse_input_section text =
        (PyStr (py_strip g1), PyStr ''Unknown'', PyStr (py_strip basis), PyStr (py_strip meth))"
      using Some g mb
      by (simp add: fallback_parse_input_section_def fallback_body_def Let_def
          del: group_def)
    then show ?thesis using trimmed_py_strip by blast
  qed
qed

lemma resolve_metadata_eq:
  "resolve_metadata name contents =
     (if length (py_split CHR ''_'' (stem name)) = 4
      then (parse_filename name, [Filename_Tier])
      else (fallback_parse_input_section contents, [Filename_Tier, Fallback_Tier]))"
proof (cases "length (py_split CHR ''_'' (stem name)) = 4")
  case True
  then obtain a b c d where "py_split CHR ''_'' (stem name) = [a, b, c, d]"
    by (auto simp: length_Suc_conv numeral_eq_Suc)
  then have "parse_filename name = (PyStr a, PyStr b, PyStr c, PyStr d)"
    by (rule parse_filename_four)
  with True show ?thesis by (simp add: resolve_metadata_def)
next
  case False
  then have "parse_filename name = unresolved" by (rule parse_filename_not_four)
  with False show ?thesis by (simp add: resolve_metadata_def unresolved_def)
qed

text \<open>
  Claim C2. The metadata of a file comes from exactly one tier. When the base name splits
  into four segments, the four fields are the result of the filename parse and the
  fallback parser is not called; otherwise the four fields are the result of the fallback
  parse, which gives either four strings or four times \<^verbatim>\<open>None\<close>. So the fields of a
  record are never a mixture of the two tiers.
\<close>

theorem metadata_from_one_tier:
  "(length (py_split CHR ''_'' (stem name)) = 4 \<longrightarrow>
      resolve_metadata name contents = (parse_filename name, [Filename_Tier]) \<and>
      (\<exists>a b c d. parse_filename name = (PyStr a, PyStr b, PyStr c, PyStr d))) \<and>
   (length (py_split CHR ''_'' (stem name)) \<noteq> 4 \<longrightarrow>
      resolve_metadata name contents =
        (fallback_parse_input_section contents, [Filename_Tier, Fallback_Tier]) \<and>
      (fallback_parse_input_section contents = unresolved \<or>
       (\<exists>a b c d. fallback_parse_input_section contents =
          (PyStr a, PyStr b, PyStr c, PyStr d)))) \<and>
   (fst (resolve_metadata name contents) = parse_filename name \<or>
    fst (resolve_metadata name contents) = fallback_parse_input_section contents)"
proof -
  have "length (py_split CHR ''_'' (stem name)) = 4 \<longrightarrow>
      (\<exists>a b c d. parse_filename name = (PyStr a, PyStr b, PyStr c, PyStr d))"
  proof
    assume "length (py_split CHR ''_'' (stem name)) = 4"
    then obtain a b c d where "py_split CHR ''_'' (stem name) = [a, b, c, d]"
      by (auto simp: length_Suc_conv numeral_eq_Suc)
    then have "parse_filename name = (PyStr a, PyStr b, PyStr c, PyStr d)"
      by (rule parse_filename_four)
    then show "\<exists>a b c d. parse_filename name = (PyStr a, PyStr b, PyStr c, PyStr d)"
      by blast
  qed
  moreover have "fallback_parse_input_section contents = unresolved \<or>
       (\<exists>a b c d. fallback_parse_input_section contents =
          (PyStr a, PyStr b, PyStr c, PyStr d))"
    using fallback_cases [of contents] by blast
  ultimately show ?thesis
    by (simp add: resolve_metadata_eq)
qed

theorem metadata_from_one_tier_witness:
  "resolve_metadata ''Water_FF1_631G_HF.log'' ''INPUT CARD>! Methane | ignored | B3LYP/6-31G*'' =
     ((PyStr ''Water'', PyStr ''FF1'', PyStr ''631G'', PyStr ''HF''), [Filename_Tier]) \<and>
   resolve_metadata ''badname.log'' ''INPUT CARD>! Methane | ignored | B3LYP/6-31G*'' =
     ((PyStr ''Methane'', PyStr ''Unknown'', PyStr ''6-31G*'', PyStr ''B3LYP''),
      [Filename_Tier, Fallback_Tier])"
proof -
  let ?c = "''INPUT CARD>! Methane | ignored | B3LYP/6-31G*''"
  have 1: "length (py_split CHR ''_'' (stem ''Water_FF1_631G_HF.log'')) = 4" by code_simp
  have 2: "length (py_split CHR ''_'' (stem ''badname.log'')) \<noteq> 4" by code_simp
  have 3: "parse_filename ''Water_FF1_631G_HF.log'' =
      (PyStr ''Water'', PyStr ''FF1'', PyStr ''631G'', PyStr ''HF'')" by code_simp
  have 4: "fallback_parse_input_section ?c =
      (PyStr ''Methane'', PyStr ''Unknown'', PyStr ''6-31G*'', PyStr ''B3LYP'')" by code_simp
  from metadata_from_one_tier [of "''Water_FF1_631G_HF.log''" ?c] 1 3
  have a: "resolve_metadata ''Water_FF1_631G_HF.log'' ?c =
     ((PyStr ''Water'', PyStr ''FF1'', PyStr ''631G'', PyStr ''HF''), [Filename_Tier])"
    by simp
  from metadata_from_one_tier [of "''badname.log''" ?c] 2 4
  have b: "resolve_metadata ''badname.log'' ?c =
     ((PyStr ''Methane'', PyStr ''Unknown'', PyStr ''6-31G*'', PyStr ''B3LYP''),
      [Filename_Tier, Fallback_Tier])"
    by simp
  from a b show ?thesis by blast
qed

text \<open>
  Claim C6, as stated, fails: the filename tier returns the segments as they are, so a
  resolved element can be the empty string or carry white space.
\<close>

theorem resolved_element_empty_or_padded:
  "fst (resolve_metadata ''_a_b_c.log'' []) = (PyStr [], PyStr ''a'', PyStr ''b'', PyStr ''c'') \<and>
   fst (resolve_metadata '' a_b_c_d.log'' []) =
     (PyStr '' a'', PyStr ''b'', PyStr ''c'', PyStr ''d'') \<and>
   \<not> trimmed '' a''"
  by code_simp

text \<open>
  Claim C6, amended. The four elements of the metadata are either all the unresolved
  marker or all strings. Strings from the fallback tier carry no white space at either
  end, but may be empty; strings from the filename tier are the four segments of the
  base name as the split gives them, which may be empty or carry white space.
\<close>

theorem metadata_elements:
  "fst (resolve_metadata name contents) = unresolved \<or>
   (\<exists>a b c d. fst (resolve_metadata name contents) = (PyStr a, PyStr b, PyStr c, PyStr d) \<and>
      (length (py_split CHR ''_'' (stem name)) = 4 \<longrightarrow>
         py_split CHR ''_'' (stem name) = [a, b, c, d]) \<and>
      (length (py_split CHR ''_'' (stem name)) \<noteq> 4 \<longrightarrow>
         trimmed a \<and> trimmed b \<and> trimmed c \<and> trimmed d))"
proof (cases "length (py_split CHR ''_'' (stem name)) = 4")
  case True
  then obtain a b c d where s: "py_split CHR ''_'' (stem name) = [a, b, c, d]"
    by (auto simp: length_Suc_conv numeral_eq_Suc)
  then have "parse_filename name = (PyStr a, PyStr b, PyStr c, PyStr d)"
    by (rule parse_filename_four)
  with True s have "fst (resolve_metadata name contents) = (PyStr a, PyStr b, PyStr c, PyStr d) \<and>
      (length (py_split CHR ''_'' (stem name)) = 4 \<longrightarrow>
         py_split CHR ''_'' (stem name) = [a, b, c, d]) \<and>
      (length (py_split CHR ''_'' (stem name)) \<noteq> 4 \<longrightarrow>
         trimmed a \<and> trimmed b \<and> trimmed c \<and> trimmed d)"
    by (simp add: resolve_metadata_eq)
  then show ?thesis by blast
next
  case False
  then have r: "fst (resolve_metadata name contents) = fallback_parse_input_section contents"
    by (simp add: resolve_metadata_eq)
  from fallback_cases [of contents] show ?thesis
  proof
    assume "fallback_parse_input_section contents = unresolved"
    with r show ?thesis by simp
  next
    assume "\<exists>a c d. fallback_parse_input_section contents =
        (PyStr a, PyStr ''Unknown'', PyStr c, PyStr d) \<and> trimmed a \<and> trimmed c \<and> trimmed d"
    then obtain a c d where "fallback_parse_input_section contents =
        (PyStr a, PyStr ''Unknown'', PyStr c, PyStr d)" "trimmed a" "trimmed c" "trimmed d"
      by blast
    with r False have "fst (resolve_metadata name contents) =
        (PyStr a, PyStr ''Unknown'', PyStr c, PyStr d) \<and>
      (length (py_split CHR ''_'' (stem name)) = 4 \<longrightarrow>
         py_split CHR ''_'' (stem name) = [a, ''Unknown'', c, d]) \<and>
      (length (py_split CHR ''_'' (stem name)) \<noteq> 4 \<longrightarrow>
         trimmed a \<and> trimmed ''Unknown'' \<and> trimmed c \<and> trimmed d)"
      by (simp add: trimmed_Unknown)
    then show ?thesis by blast
  qed
qed

theorem metadata_elements_witness:
  "trimmed ''Methane'' \<and> trimmed ''Unknown'' \<and> trimmed ''6-31G*'' \<and> trimmed ''B3LYP''"
proof -
  let ?c = "''INPUT CARD>!   Methane  | ignored |  B3LYP / 6-31G*  ''"
  have 1: "length (py_split CHR ''_'' (stem ''badname.log'')) \<noteq> 4" by code_simp
  have 2: "fst (resolve_metadata ''badname.log'' ?c) =
      (PyStr ''Methane'', PyStr ''Unknown'', PyStr ''6-31G*'', PyStr ''B3LYP'')" by code_simp
  from metadata_elements [of "''badname.log''" ?c] 1 2
  show ?thesis by (auto simp: unresolved_def)
qed

section \<open>The rows of the table\<close>

lemma cell_bond_length:
  "cell (make_row m b h e t c) bond_length_column = Some (or_NA b)"
  by (cases m) (simp add: make_row_def cell_def bond_length_column_def)

lemma cell_heat_of_formation:
  "cell (make_row m b h e t c) ''heat_of_formation (kcal/mol)'' = Some (or_NA h)"
  by (cases m) (simp add: make_row_def cell_def)

lemma cell_total_energy:
  "cell (make_row m b h e t c) ''Total Energy (Hartrees)'' = Some (or_NA e)"
  by (cases m) (simp add: make_row_def cell_def)

lemma cell_run_time:
  "cell (make_row m b h e t c) ''Run_Time (s)'' = Some (or_NA t)"
  by (cases m) (simp add: make_row_def cell_def)

lemma cell_metadata:
  "cell (make_row (molecule, ff, basis, method) b h e t c) ''molecule'' = Some molecule"
  "cell (make_row (molecule, ff, basis, method) b h e t c) ''force_field'' = Some ff"
  "cell (make_row (molecule, ff, basis, method) b h e t c) ''basis'' = Some basis"
  "cell (make_row (molecule, ff, basis, method) b h e t c) ''comp_method'' = Some method"
  by (simp_all add: make_row_def cell_def)

lemma or_NA_present: "or_NA v \<noteq> PyNone \<and> (v = PyNone \<longrightarrow> or_NA v = PyStr ''NA'') \<and>
    (v \<noteq> PyNone \<longrightarrow> or_NA v = v)"
  by (simp add: or_NA_def)

lemma main_loop_rows:
  assumes "r \<in> set (main_loop files)"
  shows "\<exists>name contents bond heat energy completion.
      (name, contents) \<in> set files \<and>
      extract_bond_length contents = Inr bond \<and>
      extract_heat_of_formation contents = Inr heat \<and>
      extract_total_energy contents = Inr energy \<and>
      r = make_row (fst (resolve_metadata name contents)) bond heat energy
            (run_time contents) completion"
proof -
  from assms have "r \<in> set (concat (map (process_file []) files))"
    using foldl_process_file [of "[]" files] by (simp add: main_loop_def)
  then obtain name contents where f: "(name, contents) \<in> set files"
      and r: "r \<in> set (process_file [] (name, contents))"
    by auto
  from process_file_rows [of "[]" name contents] r
  obtain bond heat energy completion where
      "extract_bond_length contents = Inr bond"
      "extract_heat_of_formation contents = Inr heat"
      "extract_total_energy contents = Inr energy"
      "r = make_row (fst (resolve_metadata name contents)) bond heat energy
            (run_time contents) completion"
    by auto
  with f show ?thesis by blast
qed

text \<open>
  Claim C9, as stated, fails for the four metadata cells: the loop writes the resolver's
  values into them as they are, so when both tiers fail they hold \<^verbatim>\<open>None\<close>, not
  \<^verbatim>\<open>'NA'\<close>.
\<close>

theorem unresolved_metadata_cells_are_None:
  "process_file [] (''badname.log'', []) =
     [make_row unresolved PyNone PyNone PyNone PyNone ''Incomplete''] \<and>
   cell (make_row unresolved PyNone PyNone PyNone PyNone ''Incomplete'') ''molecule'' =
     Some PyNone \<and>
   cell (make_row unresolved PyNone PyNone PyNone PyNone ''Incomplete'') ''force_field'' =
     Some PyNone \<and>
   cell (make_row unresolved PyNone PyNone PyNone PyNone ''Incomplete'') ''basis'' =
     Some PyNone \<and>
   cell (make_row unresolved PyNone PyNone PyNone PyNone ''Incomplete'') ''comp_method'' =
     Some PyNone"
  by code_simp

text \<open>
  Claim C9, amended. In every row of the table, the cells of bond length, heat of
  formation, total energy and run time are never \<^verbatim>\<open>None\<close>: each holds the extracted
  value, or the string \<^verbatim>\<open>'NA'\<close> when the field is absent; the Completion cell holds a
  string. The four metadata cells hold what the resolver returned, which is \<^verbatim>\<open>None\<close>
  when both tiers fail.
\<close>

theorem absent_fields_are_NA:
  assumes "r \<in> set (main_loop files)"
  shows "\<exists>name contents bond heat energy completion molecule ff basis method.
      (name, contents) \<in> set files \<and>
      extract_bond_length contents = Inr bond \<and>
      extract_heat_of_formation contents = Inr heat \<and>
      extract_total_energy contents = Inr energy \<and>
      fst (resolve_metadata name contents) = (molecule, ff, basis, method) \<and>
      cell r bond_length_column = Some (if bond = PyNone then PyStr ''NA'' else bond) \<and>
      cell r ''heat_of_formation (kcal/mol)'' =
        Some (if heat = PyNone then PyStr ''NA'' else heat) \<and>
      cell r ''Total Energy (Hartrees)'' =
        Some (if energy = PyNone then PyStr ''NA'' else energy) \<and>
      cell r ''Run_Time (s)'' =
        Some (if run_time contents = PyNone then PyStr ''NA'' else run_time contents) \<and>
      cell r ''Completion'' = Some (PyStr completion) \<and>
      cell r ''molecule'' = Some molecule \<and>
      cell r ''force_field'' = Some ff \<and>
      cell r ''basis'' = Some basis \<and>
      cell r ''comp_method'' = Some method \<and>
      cell r bond_length_column \<noteq> Some PyNone \<and>
      cell r ''heat_of_formation (kcal/mol)'' \<noteq> Some PyNone \<and>
      cell r ''Total Energy (Hartrees)'' \<noteq> Some PyNone \<and>
      cell r ''Run_Time (s)'' \<noteq> Some PyNone"
proof -
  from main_loop_rows [OF assms] obtain name contents bond heat energy completion where
    f: "(name, contents) \<in> set files"
      "extract_bond_length contents = Inr bond"
      "extract_heat_of_formation contents = Inr heat"
      "extract_total_energy contents = Inr energy"
    and r: "r = make_row (fst (resolve_metadata name contents)) bond heat energy
            (run_time contents) completion"
    by blast
  obtain molecule ff basis meth where
    m: "fst (resolve_metadata name contents) = (molecule, ff, basis, meth)"
    by (metis prod_cases4)
  have c: "cell r bond_length_column = Some (if bond = PyNone then PyStr ''NA'' else bond)"
      "cell r ''heat_of_formation (kcal/mol)'' =
        Some (if heat = PyNone then PyStr ''NA'' else heat)"
      "cell r ''Total Energy (Hartrees)'' =
        Some (if energy = PyNone then PyStr ''NA'' else energy)"
      "cell r ''Run_Time (s)'' =
        Some (if run_time contents = PyNone then PyStr ''NA'' else run_time contents)"
      "cell r ''Completion'' = Some (PyStr completion)"
    unfolding r
    by (simp_all add: cell_bond_length cell_heat_of_formation cell_total_energy
        cell_run_time or_NA_def)
  have d: "cell r ''molecule'' = Some molecule"
      "cell r ''force_field'' = Some ff"
      "cell r ''basis'' = Some basis"
      "cell r ''comp_method'' = Some meth"
    unfolding r m by (rule cell_metadata)+
  have e: "cell r bond_length_column \<noteq> Some PyNone"
      "cell r ''heat_of_formation (kcal/mol)'' \<noteq> Some PyNone"
      "cell r ''Total Energy (Hartrees)'' \<noteq> Some PyNone"
      "cell r ''Run_Time (s)'' \<noteq> Some PyNone"
    using c by (simp_all split: if_splits)
  from f m c d e show ?thesis by blast
qed

theorem absent_fields_are_NA_witness:
  "cell (make_row unresolved PyNone PyNone (PyFloat ''-1.5'') PyNone ''Incomplete'')
     bond_length_column = Some (PyStr ''NA'') \<and>
   cell (make_row unresolved PyNone PyNone (PyFloat ''-1.5'') PyNone ''Incomplete'')
     ''Total Energy (Hartrees)'' = Some (PyFloat ''-1.5'') \<and>
   cell (make_row unresolved PyNone PyNone (PyFloat ''-1.5'') PyNone ''Incomplete'')
     ''Run_Time (s)'' = Some (PyStr ''NA'')"
proof -
  let ?c = "''TOTAL ENERGY = -1.5''"
  let ?r = "make_row unresolved PyNone PyNone (PyFloat ''-1.5'') PyNone ''Incomplete''"
  have m: "main_loop [(''a.log'', ?c)] = [?r]" by code_simp
  then have "?r \<in> set (main_loop [(''a.log'', ?c)])" by simp
  from absent_fields_are_NA [OF this]
  obtain bond energy where
    x: "extract_bond_length ?c = Inr bond" "extract_total_energy ?c = Inr energy"
      "cell ?r bond_length_column = Some (if bond = PyNone then PyStr ''NA'' else bond)"
      "cell ?r ''Total Energy (Hartrees)'' =
        Some (if energy = PyNone then PyStr ''NA'' else energy)"
      "cell ?r ''Run_Time (s)'' =
        Some (if run_time ?c = PyNone then PyStr ''NA'' else run_time ?c)"
    by auto
  have e: "extract_bond_length ?c = Inr PyNone"
    "extract_total_energy ?c = Inr (PyFloat ''-1.5'')" "run_time ?c = PyNone"
    by code_simp+
  from x e have "bond = PyNone" "energy = PyFloat ''-1.5''" by simp_all
  with x e show ?thesis by simp
qed

section \<open>The run time\<close>

lemma marker_no_self_overlap:
  assumes "j < 22" "prefix ''TO'' (drop j (''TOTAL WALL CLOCK TIME='' @ y))"
  shows "j = 0"
proof -
  from assms(1) have "j \<in> set [0..<22]" by simp
  then have "j \<in> {0,1,2,3,4,5,6,7,8,9,10,11,12,13,14,15,16,17,18,19,20,21}"
    by (simp add: upt_rec numeral_eq_Suc)
  with assms(2) show ?thesis
    by (elim insertE emptyE) simp_all
qed

lemma decimal_chars: "decimal g \<Longrightarrow> c \<in> set g \<Longrightarrow> is_digit c \<or> c = CHR ''.''"
  by (erule decimalE) (auto simp: list_all_iff)

lemma T_not_space_digit_point:
  "\<not> is_space CHR ''T''" "\<not> is_digit CHR ''T''" "CHR ''T'' \<noteq> CHR ''.''"
  by (simp_all add: is_space_def is_digit_def code_def)

lemma wall_clock_no_overlap:
  assumes m: "re_match wall_clock_re s init = Some (gs, rest)"
    and j: "0 < j" "j < length s - length rest"
  shows "re_match wall_clock_re (drop j s) init = None"
proof (rule ccontr)
  define L where "L = ''TOTAL WALL CLOCK TIME=''"
  have lenL: "length L = 22" by (simp add: L_def)
  assume "re_match wall_clock_re (drop j s) init \<noteq> None"
  then obtain gs' rest' where "re_match wall_clock_re (drop j s) init = Some (gs', rest')"
    by auto
  then obtain y where y: "drop j s = L @ y"
    unfolding L_def by (blast dest: wall_clock_match)
  from m obtain ws g where "s = L @ (ws @ g) @ rest"
      and ws: "list_all is_space ws" and g: "decimal g"
    unfolding L_def by (auto dest: wall_clock_match)
  then obtain x where s: "s = L @ x @ rest"
      and x: "\<And>c. c \<in> set x \<Longrightarrow> is_space c \<or> is_digit c \<or> c = CHR ''.''"
    using decimal_chars [OF g] by (auto simp: list_all_iff)
  show False
  proof (cases "j < 22")
    case True
    from y s have "prefix ''TO'' (drop j (''TOTAL WALL CLOCK TIME='' @ x @ rest))"
      by (simp add: L_def)
    with True have "j = 0" by (rule marker_no_self_overlap)
    with j show False by simp
  next
    case False
    then obtain k where k: "j = 22 + k" by (metis le_add_diff_inverse not_less)
    from j s k lenL have kl: "k < length x" by simp
    have "drop j s = drop k (x @ rest)"
      unfolding s k using lenL by (simp only: drop_append) simp
    also have "\<dots> = drop k x @ rest" using kl by simp
    finally have d: "drop k x @ rest = L @ y" using y by simp
    from kl have ne: "drop k x \<noteq> []" by simp
    have "hd (drop k x @ rest) = CHR ''T''"
      unfolding d by (simp add: L_def)
    with ne have "hd (drop k x) = CHR ''T''" by simp
    moreover from kl have "hd (drop k x) \<in> set x"
      by (metis hd_drop_conv_nth nth_mem)
    ultimately have "CHR ''T'' \<in> set x" by simp
    from x [OF this] show False
      using T_not_space_digit_point by simp
  qed
qed

lemma wall_clock_consumes:
  assumes "re_match wall_clock_re s init = Some (gs, rest)"
  shows "length rest < length s" "rest = drop (length s - length rest) s"
proof -
  from assms obtain ws g where s: "s = ''TOTAL WALL CLOCK TIME='' @ ws @ g @ rest"
    by (blast dest: wall_clock_match)
  then show "length rest < length s" by simp
  have "suffix rest s" using re_match_suffix [OF assms] by simp
  then obtain pre where "s = pre @ rest" by (auto simp: suffix_def)
  then show "rest = drop (length s - length rest) s" by simp
qed

lemma occurrences_skip:
  "m \<le> length s \<Longrightarrow> (\<And>j. j < m \<Longrightarrow> re_match p (drop j s) init = None) \<Longrightarrow>
   occurrences p s = occurrences p (drop m s)"
proof (induction m arbitrary: s)
  case 0
  then show ?case by simp
next
  case (Suc m)
  then obtain c cs where s: "s = c # cs" by (cases s) auto
  from Suc.prems(2) [of 0] have n: "re_match p s init = None" by simp
  have "occurrences p cs = occurrences p (drop m cs)"
  proof (rule Suc.IH)
    show "m \<le> length cs" using Suc.prems(1) s by simp
    fix j assume "j < m"
    then have "re_match p (drop (Suc j) s) init = None" by (intro Suc.prems(2)) simp
    then show "re_match p (drop j cs) init = None" using s by simp
  qed
  with n s show ?case by simp
qed

lemma re_findall_wall_clock: "re_findall wall_clock_re s = occurrences wall_clock_re s"
proof (induction s rule: length_induct)
  case (1 s)
  show ?case
  proof (cases "re_match wall_clock_re s init")
    case None
    show ?thesis
    proof (cases s)
      case Nil
      with None show ?thesis by (simp add: re_findall.simps [of _ "[]"])
    next
      case (Cons c cs)
      with 1 have "re_findall wall_clock_re cs = occurrences wall_clock_re cs" by simp
      with None Cons show ?thesis by (simp add: re_findall.simps [of _ "c # cs"])
    qed
  next
    case (Some m)
    obtain gs rest where m: "m = (gs, rest)" by (cases m)
    with Some have sm: "re_match wall_clock_re s init = Some (gs, rest)" by simp
    note c = wall_clock_consumes [OF sm]
    let ?k = "length s - length rest"
    from c obtain a cs where s: "s = a # cs" by (cases s) auto
    from c(1) 1 have ih: "re_findall wall_clock_re rest = occurrences wall_clock_re rest"
      by simp
    have "occurrences wall_clock_re cs = occurrences wall_clock_re (drop (?k - 1) cs)"
    proof (rule occurrences_skip)
      show "?k - 1 \<le> length cs" using s by simp
      fix j assume "j < ?k - 1"
      then have "re_match wall_clock_re (drop (Suc j) s) init = None"
        by (intro wall_clock_no_overlap [OF sm]) simp_all
      then show "re_match wall_clock_re (drop j cs) init = None" using s by simp
    qed
    also have "drop (?k - 1) cs = drop ?k s" using s c(1) by (simp add: drop_Cons')
    also have "\<dots> = rest" using c(2) by simp
    finally have "occurrences wall_clock_re cs = occurrences wall_clock_re rest" .
    with sm c(1) ih s show ?thesis
      by (simp add: re_findall.simps [of _ "a # cs"])
  qed
qed

lemma occurrences_none:
  "(\<And>i. i \<le> length s \<Longrightarrow> re_match p (drop i s) init = None) \<Longrightarrow> occurrences p s = []"
proof (induction s)
  case Nil
  from Nil [of 0] show ?case by simp
next
  case (Cons c cs)
  from Cons.prems [of 0] have n: "re_match p (c # cs) init = None" by simp
  have "occurrences p cs = []"
  proof (rule Cons.IH)
    fix i assume "i \<le> length cs"
    then have "re_match p (drop (Suc i) (c # cs)) init = None" by (intro Cons.prems) simp
    then show "re_match p (drop i cs) init = None" by simp
  qed
  with n show ?case by simp
qed

lemma occurrences_last:
  "i \<le> length s \<Longrightarrow> re_match p (drop i s) init = Some (gs, rest) \<Longrightarrow>
   (\<And>j. i < j \<Longrightarrow> j \<le> length s \<Longrightarrow> re_match p (drop j s) init = None) \<Longrightarrow>
   occurrences p s \<noteq> [] \<and> last (occurrences p s) = group1 gs"
proof (induction s arbitrary: i)
  case Nil
  then show ?case by simp
next
  case (Cons c cs)
  show ?case
  proof (cases i)
    case 0
    have "occurrences p cs = []"
    proof (rule occurrences_none)
      fix k assume "k \<le> length cs"
      then have "re_match p (drop (Suc k) (c # cs)) init = None"
        using 0 by (intro Cons.prems(3)) simp_all
      then show "re_match p (drop k cs) init = None" by simp
    qed
    with Cons.prems(2) 0 show ?thesis by simp
  next
    case (Suc i')
    have "occurrences p cs \<noteq> [] \<and> last (occurrences p cs) = group1 gs"
    proof (rule Cons.IH)
      show "i' \<le> length cs" using Cons.prems(1) Suc by simp
      show "re_match p (drop i' cs) init = Some (gs, rest)" using Cons.prems(2) Suc by simp
      fix j assume "i' < j" "j \<le> length cs"
      then have "re_match p (drop (Suc j) (c # cs)) init = None"
        using Suc by (intro Cons.prems(3)) simp_all
      then show "re_match p (drop j cs) init = None" by simp
    qed
    then show ?thesis by (simp split: option.splits)
  qed
qed

lemma run_time_occurrences:
  "run_time text =
     (if occurrences wall_clock_re text = [] then PyNone
      else PyStr (last (occurrences wall_clock_re text)))"
  unfolding run_time_def re_findall_wall_clock by (simp add: Let_def)

section \<open>The fallback parser\<close>

subsection \<open>When a quantifier is known to stop\<close>

lemma lit_forward: "re_match (lit l @ r) (l @ s) st = re_match r s (feed l st)"
proof (induction l arbitrary: st)
  case Nil
  then show ?case by (simp add: lit_def)
next
  case (Cons a l)
  have "re_match (lit (a # l) @ r) ((a # l) @ s) st =
      re_match (lit l @ r) (l @ s) (feed [a] st)"
    by (simp add: lit_def is_char_def consume_feed)
  also have "\<dots> = re_match r s (feed l (feed [a] st))" by (rule Cons.IH)
  finally show ?case by simp
qed

lemma star_forward:
  "list_all p ws \<Longrightarrow> s = [] \<or> \<not> p (hd s) \<Longrightarrow> re_match r s (feed ws st) = Some m \<Longrightarrow>
   re_match (Atom p Greedy_Star # r) (ws @ s) st = Some m"
proof (induction ws arbitrary: st)
  case Nil
  then show ?case by (cases s) auto
next
  case (Cons w ws)
  from Cons.prems have "re_match r s (feed ws (consume w st)) = Some m"
    by (simp add: consume_feed)
  with Cons have "re_match (Atom p Greedy_Star # r) (ws @ s) (consume w st) = Some m"
    by simp
  with Cons.prems(1) show ?case by simp
qed

lemma lazy_forward:
  "list_all p xs \<Longrightarrow>
   (\<And>u v. xs = u @ v \<Longrightarrow> v \<noteq> [] \<Longrightarrow> re_match r (v @ t) (feed u st) = None) \<Longrightarrow>
   re_match r t (feed xs st) = Some m \<Longrightarrow>
   re_match (Atom p Lazy_Star # r) (xs @ t) st = Some m"
proof (induction xs arbitrary: st)
  case Nil
  then show ?case by simp
next
  case (Cons x xs)
  from Cons.prems(2) [of "[]" "x # xs"] have n: "re_match r ((x # xs) @ t) st = None"
    by simp
  have "re_match (Atom p Lazy_Star # r) (xs @ t) (consume x st) = Some m"
  proof (rule Cons.IH)
    show "list_all p xs" using Cons.prems(1) by simp
    show "re_match r t (feed xs (consume x st)) = Some m"
      using Cons.prems(3) by (simp add: consume_feed)
    fix u v assume "xs = u @ v" "v \<noteq> []"
    then have "re_match r (v @ t) (feed (x # u) st) = None"
      by (intro Cons.prems(2)) simp_all
    then show "re_match r (v @ t) (feed u (consume x st)) = None"
      by (simp add: consume_feed)
  qed
  with n Cons.prems(1) show ?case by simp
qed

lemma spaces_stop_before:
  assumes "v @ t = xs @ s'" "list_all is_space xs" "v \<noteq> []" "\<not> is_space (last v)"
  obtains us where "us \<noteq> []" "v = xs @ us" "s' = us @ t"
proof -
  from assms(1) obtain us where
    "(v = xs @ us \<and> us @ t = s') \<or> (v @ us = xs \<and> t = us @ s')"
    by (auto simp: append_eq_append_conv2)
  then show ?thesis
  proof
    assume a: "v = xs @ us \<and> us @ t = s'"
    have "us \<noteq> []"
    proof
      assume "us = []"
      with a assms(3) have "last v \<in> set xs" by auto
      with assms(2,4) show False by (simp add: list_all_iff)
    qed
    with a show ?thesis by (intro that [of us]) auto
  next
    assume "v @ us = xs \<and> t = us @ s'"
    with assms(3) have "last v \<in> set xs" by auto
    with assms(2,4) show ?thesis by (simp add: list_all_iff)
  qed
qed

lemma star_eol_groups:
  assumes "re_match [Atom is_space Greedy_Star, End_Of_Line] s st = Some m"
  shows "fst m = groups st"
proof -
  from assms obtain xs s' where "re_match [End_Of_Line] s' (feed xs st) = Some m"
    by (rule star_inv)
  then show ?thesis by (cases s') (auto split: if_splits)
qed

lemma star_Cons:
  "p c \<Longrightarrow> re_match (Atom p Greedy_Star # r) (c # cs) st =
     (case re_match (Atom p Greedy_Star # r) cs (consume c st) of
        Some m \<Rightarrow> Some m | None \<Rightarrow> re_match r (c # cs) st)"
  by simp

lemma newline_space: "is_space newline"
  by (simp add: is_space_def newline_def code_def)

lemma eol_at: "s = [] \<or> hd s = newline \<Longrightarrow> re_match [End_Of_Line] s st = Some (groups st, s)"
  by (cases s) auto

lemma star_eol_succeeds:
  "list_all is_space ws \<Longrightarrow> post = [] \<or> hd post = newline \<Longrightarrow>
   \<exists>rest. re_match [Atom is_space Greedy_Star, End_Of_Line] (ws @ post) st =
      Some (groups st, rest)"
proof (induction ws arbitrary: st)
  case Nil
  show ?case
  proof (cases post)
    case Nil
    then show ?thesis by simp
  next
    case (Cons c p')
    with Nil.prems have c: "c = newline" by simp
    have e: "re_match [End_Of_Line] (newline # p') st = Some (groups st, newline # p')"
      by (rule eol_at) simp
    show ?thesis
    proof (cases "re_match [Atom is_space Greedy_Star, End_Of_Line] p' (consume newline st)")
      case None
      then have "re_match [Atom is_space Greedy_Star, End_Of_Line] (newline # p') st =
          Some (groups st, newline # p')"
        by (simp only: star_Cons [of is_space newline, OF newline_space] e option.case)
      with Cons c show ?thesis by simp
    next
      case (Some m)
      have "fst m = groups st" using star_eol_groups [OF Some] by (simp add: consume_feed)
      then have m: "m = (groups st, snd m)" by (cases m) simp
      from Some have "re_match [Atom is_space Greedy_Star, End_Of_Line] (newline # p') st =
          Some m"
        by (simp only: star_Cons [of is_space newline, OF newline_space] option.case)
      with m Cons c show ?thesis by (metis append_Nil)
    qed
  qed
next
  case (Cons w ws)
  from Cons.prems have w: "is_space w" by simp
  from Cons.IH [of "consume w st"] Cons.prems obtain rest where
    "re_match [Atom is_space Greedy_Star, End_Of_Line] (ws @ post) (consume w st) =
      Some (groups st, rest)"
    by (auto simp: consume_feed)
  then have "re_match [Atom is_space Greedy_Star, End_Of_Line] ((w # ws) @ post) st =
      Some (groups st, rest)"
    by (simp only: append_Cons star_Cons [of is_space w, OF w] option.case)
  then show ?case by blast
qed

lemma close_eol_blocked:
  assumes "v \<noteq> []" "\<not> is_space (last v)" "newline \<notin> set v"
  shows "re_match [Group_Close, Atom is_space Greedy_Star, End_Of_Line] (v @ t) st = None"
proof (rule ccontr)
  assume "re_match [Group_Close, Atom is_space Greedy_Star, End_Of_Line] (v @ t) st \<noteq> None"
  then obtain m where
    "re_match [Atom is_space Greedy_Star, End_Of_Line] (v @ t) (close_group st) = Some m"
    by auto
  then obtain xs s' where x: "v @ t = xs @ s'" "list_all is_space xs"
      and e: "re_match [End_Of_Line] s' (feed xs (close_group st)) = Some m"
    by (rule star_inv)
  from x assms(1,2) obtain us where us: "us \<noteq> []" "v = xs @ us" "s' = us @ t"
    by (rule spaces_stop_before)
  then obtain c us' where c: "us = c # us'" by (cases us) auto
  with e us have "c = newline" by (auto split: if_splits)
  with c us assms(3) show False by simp
qed

lemma close_pipe_blocked:
  assumes "v \<noteq> []" "\<not> is_space (last v)" "CHR ''|'' \<notin> set v"
  shows "re_match (Group_Close # Atom is_space Greedy_Star # Atom (is_char CHR ''|'') Once # r)
           (v @ t) st = None"
proof (rule ccontr)
  assume "re_match (Group_Close # Atom is_space Greedy_Star # Atom (is_char CHR ''|'') Once # r)
           (v @ t) st \<noteq> None"
  then obtain m where
    "re_match (Atom is_space Greedy_Star # Atom (is_char CHR ''|'') Once # r) (v @ t)
       (close_group st) = Some m"
    by auto
  then obtain xs s' where x: "v @ t = xs @ s'" "list_all is_space xs"
      and e: "re_match (Atom (is_char CHR ''|'') Once # r) s' (feed xs (close_group st)) = Some m"
    by (rule star_inv)
  from x assms(1,2) obtain us where us: "us \<noteq> []" "v = xs @ us" "s' = us @ t"
    by (rule spaces_stop_before)
  then obtain c us' where c: "us = c # us'" by (cases us) auto
  with e us have "c = CHR ''|''" by (auto simp: is_char_def split: if_splits)
  with c us assms(3) show False by simp
qed

subsection \<open>The input-echo pattern on a well-formed line\<close>

lemma strip_decomp:
  obtains ws0 ws1 where "s = ws0 @ py_strip s @ ws1" "list_all is_space ws0"
    "list_all is_space ws1" "py_strip s = [] \<longrightarrow> ws1 = []"
proof -
  let ?t = "dropWhile is_space s"
  let ?w1 = "rev (takeWhile is_space (rev ?t))"
  have "rev (takeWhile is_space (rev ?t) @ dropWhile is_space (rev ?t)) = ?t"
    by (simp only: takeWhile_dropWhile_id rev_rev_ident)
  then have "rev (dropWhile is_space (rev ?t)) @ ?w1 = ?t"
    by (simp only: rev_append)
  then have t: "?t = py_strip s @ ?w1"
    by (simp only: py_strip_def)
  have "s = takeWhile is_space s @ ?t" by simp
  with t have 1: "s = takeWhile is_space s @ py_strip s @ ?w1" by simp
  have 2: "list_all is_space (takeWhile is_space s)"
    by (simp add: list_all_iff) (meson set_takeWhileD)
  have 3: "list_all is_space ?w1"
    by (simp add: list_all_iff) (meson set_takeWhileD)
  have 4: "py_strip s = [] \<longrightarrow> ?w1 = []"
  proof (rule impI, rule ccontr)
    assume e: "py_strip s = []" and ne: "?w1 \<noteq> []"
    from e t have tw: "?t = ?w1" by simp
    with ne have "?t \<noteq> []" by simp
    then have "\<not> is_space (hd ?t)" by (rule hd_dropWhile)
    moreover from ne tw have "hd ?t \<in> set ?w1" by (metis hd_in_set)
    ultimately show False using 3 by (simp add: list_all_iff)
  qed
  from 1 2 3 4 show ?thesis by (rule that)
qed

lemma pipe_not_space: "\<not> is_space CHR ''|''"
  by (simp add: is_space_def code_def)

lemma star_forward_closed:
  "cur st = None \<Longrightarrow> list_all p ws \<Longrightarrow> s = [] \<or> \<not> p (hd s) \<Longrightarrow>
   re_match r s st = Some m \<Longrightarrow> re_match (Atom p Greedy_Star # r) (ws @ s) st = Some m"
  by (rule star_forward) simp_all

lemma once_closed:
  "cur st = None \<Longrightarrow> p c \<Longrightarrow> re_match (Atom p Once # r) (c # s) st = re_match r s st"
  by (simp add: consume_feed)

lemma group2_tail:
  assumes ws2: "list_all is_space ws2"
    and mb: "mb \<noteq> []" "\<not> is_space (hd mb)" "\<not> is_space (last mb)" "newline \<notin> set mb"
    and ws3: "list_all is_space ws3"
    and post: "post = [] \<or> hd post = newline"
    and st: "cur st = None"
  shows "\<exists>rest. re_match (Atom is_space Greedy_Star # Group_Open #
      Atom not_newline Lazy_Star # Group_Close #
      [Atom is_space Greedy_Star, End_Of_Line]) (ws2 @ mb @ ws3 @ post) st =
      Some (groups st @ [mb], rest)"
proof -
  let ?K5 = "[Atom is_space Greedy_Star, End_Of_Line]"
  from star_eol_succeeds [OF ws3 post, of "st\<lparr>cur := None, groups := groups st @ [mb]\<rparr>"]
  obtain rest where "re_match ?K5 (ws3 @ post) (st\<lparr>cur := None, groups := groups st @ [mb]\<rparr>) =
      Some (groups st @ [mb], rest)"
    by auto
  then have close: "re_match (Group_Close # ?K5) (ws3 @ post) (feed mb (st\<lparr>cur := Some []\<rparr>)) =
      Some (groups st @ [mb], rest)"
    by simp
  have "re_match (Atom not_newline Lazy_Star # Group_Close # ?K5) (mb @ ws3 @ post)
      (st\<lparr>cur := Some []\<rparr>) = Some (groups st @ [mb], rest)"
  proof (rule lazy_forward [OF _ _ close])
    show "list_all not_newline mb" using mb(4) by (auto simp: list_all_iff not_newline_def)
    fix u v assume uv: "mb = u @ v" "v \<noteq> []"
    with mb have "\<not> is_space (last v)" "newline \<notin> set v" by auto
    with uv(2) show "re_match (Group_Close # ?K5) (v @ ws3 @ post)
        (feed u (st\<lparr>cur := Some []\<rparr>)) = None"
      by (intro close_eol_blocked)
  qed
  then have op: "re_match (Group_Open # Atom not_newline Lazy_Star # Group_Close # ?K5)
      (mb @ ws3 @ post) st = Some (groups st @ [mb], rest)"
    by (simp add: open_group_def del: re_match.simps(9))
  have "re_match (Atom is_space Greedy_Star # Group_Open # Atom not_newline Lazy_Star #
      Group_Close # ?K5) (ws2 @ mb @ ws3 @ post) st = Some (groups st @ [mb], rest)"
  proof (rule star_forward_closed [OF st ws2 _ op])
    show "mb @ ws3 @ post = [] \<or> \<not> is_space (hd (mb @ ws3 @ post))"
      using mb by simp
  qed
  then show ?thesis by blast
qed

lemma middle_segment:
  assumes b: "CHR ''|'' \<notin> set b" "newline \<notin> set b"
    and st: "cur st = None"
    and k: "re_match r t st = Some m"
  shows "re_match (Atom is_space Greedy_Star # Atom not_newline Lazy_Star #
      Atom (is_char CHR ''|'') Once # r) (b @ CHR ''|'' # t) st = Some m"
proof -
  let ?w = "takeWhile is_space b"
  let ?b = "dropWhile is_space b"
  have pipe: "re_match (Atom (is_char CHR ''|'') Once # r) (CHR ''|'' # t) (feed ?b st) = Some m"
    using st k by (simp add: once_closed is_char_def del: re_match.simps)
  have lz: "re_match (Atom not_newline Lazy_Star # Atom (is_char CHR ''|'') Once # r)
      (?b @ CHR ''|'' # t) st = Some m"
  proof (rule lazy_forward [OF _ _ pipe])
    show "list_all not_newline ?b"
      using b(2) by (auto simp: list_all_iff not_newline_def dest: set_dropWhileD)
    fix u v assume uv: "?b = u @ v" "v \<noteq> []"
    then obtain c v' where v: "v = c # v'" by (cases v) auto
    with uv have "c \<in> set ?b" by simp
    then have "c \<in> set b" by (rule set_dropWhileD)
    with b(1) have "c \<noteq> CHR ''|''" by auto
    with v show "re_match (Atom (is_char CHR ''|'') Once # r) (v @ CHR ''|'' # t) (feed u st) = None"
      by (simp add: is_char_def)
  qed
  have "re_match (Atom is_space Greedy_Star # Atom not_newline Lazy_Star #
      Atom (is_char CHR ''|'') Once # r) (?w @ ?b @ CHR ''|'' # t) st = Some m"
  proof (rule star_forward_closed [OF st _ _ lz])
    show "list_all is_space ?w" by (simp add: list_all_iff) (meson set_takeWhileD)
    show "?b @ CHR ''|'' # t = [] \<or> \<not> is_space (hd (?b @ CHR ''|'' # t))"
    proof (cases "?b = []")
      case True
      then have "hd (?b @ CHR ''|'' # t) = CHR ''|''" by (simp only: append_Nil list.sel)
      then show ?thesis using pipe_not_space by metis
    next
      case False
      then have "\<not> is_space (hd ?b)" by (rule hd_dropWhile)
      with False show ?thesis by simp
    qed
  qed
  then show ?thesis by (simp only: append_assoc [symmetric] takeWhile_dropWhile_id)
qed

lemma group1_segment:
  assumes a: "CHR ''|'' \<notin> set a" "newline \<notin> set a"
    and st: "cur st = None"
    and k: "re_match r t (st\<lparr>cur := None, groups := groups st @ [py_strip a]\<rparr>) = Some m"
  shows "re_match (Atom is_space Greedy_Star # Group_Open # Atom not_newline Lazy_Star #
      Group_Close # Atom is_space Greedy_Star # Atom (is_char CHR ''|'') Once # r)
      (a @ CHR ''|'' # t) st = Some m"
proof -
  let ?mol = "py_strip a"
  let ?st' = "st\<lparr>cur := None, groups := groups st @ [?mol]\<rparr>"
  obtain ws0 ws1 where d: "a = ws0 @ ?mol @ ws1" "list_all is_space ws0"
      "list_all is_space ws1" "?mol = [] \<longrightarrow> ws1 = []"
    by (rule strip_decomp [of a])
  have sub: "set ?mol \<subseteq> set a" using d(1) by (metis Un_iff set_append subsetI)
  have tr: "?mol = [] \<or> (\<not> is_space (hd ?mol) \<and> \<not> is_space (last ?mol))"
    using trimmed_py_strip [of a] by (simp add: trimmed_def)
  have "re_match (Atom (is_char CHR ''|'') Once # r) (CHR ''|'' # t) ?st' = Some m"
    using k by (simp add: once_closed is_char_def del: re_match.simps)
  then have "re_match (Atom is_space Greedy_Star # Atom (is_char CHR ''|'') Once # r)
      (ws1 @ CHR ''|'' # t) ?st' = Some m"
    by (intro star_forward_closed d) (simp_all add: pipe_not_space del: re_match.simps)
  then have close: "re_match (Group_Close # Atom is_space Greedy_Star #
      Atom (is_char CHR ''|'') Once # r) (ws1 @ CHR ''|'' # t) (feed ?mol (st\<lparr>cur := Some []\<rparr>))
      = Some m"
    by (simp del: re_match.simps(5,7))
  have "re_match (Atom not_newline Lazy_Star # Group_Close # Atom is_space Greedy_Star #
      Atom (is_char CHR ''|'') Once # r) (?mol @ ws1 @ CHR ''|'' # t) (st\<lparr>cur := Some []\<rparr>)
      = Some m"
  proof (rule lazy_forward [OF _ _ close])
    show "list_all not_newline ?mol"
      using a(2) sub by (auto simp: list_all_iff not_newline_def)
    fix u v assume uv: "?mol = u @ v" "v \<noteq> []"
    with tr have "\<not> is_space (last v)" by auto
    moreover from uv sub a(1) have "CHR ''|'' \<notin> set v" by auto
    ultimately show "re_match (Group_Close # Atom is_space Greedy_Star #
        Atom (is_char CHR ''|'') Once # r) (v @ ws1 @ CHR ''|'' # t)
        (feed u (st\<lparr>cur := Some []\<rparr>)) = None"
      using uv(2) by (intro close_pipe_blocked)
  qed
  then have op: "re_match (Group_Open # Atom not_newline Lazy_Star # Group_Close #
      Atom is_space Greedy_Star # Atom (is_char CHR ''|'') Once # r)
      (?mol @ ws1 @ CHR ''|'' # t) st = Some m"
    by (simp add: open_group_def del: re_match.simps(9))
  have "re_match (Atom is_space Greedy_Star # Group_Open # Atom not_newline Lazy_Star #
      Group_Close # Atom is_space Greedy_Star # Atom (is_char CHR ''|'') Once # r)
      (ws0 @ ?mol @ ws1 @ CHR ''|'' # t) st = Some m"
  proof (rule star_forward_closed [OF st d(2) _ op])
    show "?mol @ ws1 @ CHR ''|'' # t = [] \<or> \<not> is_space (hd (?mol @ ws1 @ CHR ''|'' # t))"
    proof (cases "?mol = []")
      case True
      with d(4) show ?thesis by (simp add: pipe_not_space)
    next
      case False
      with tr show ?thesis by simp
    qed
  qed
  with d(1) show ?thesis by (metis append_assoc)
qed

lemma input_card_match:
  assumes a: "CHR ''|'' \<notin> set a" "newline \<notin> set a"
    and b: "CHR ''|'' \<notin> set b" "newline \<notin> set b"
    and c: "newline \<notin> set c" "py_strip c \<noteq> []"
    and post: "post = [] \<or> hd post = newline"
  shows "\<exists>rest. re_match input_card_re
      (''INPUT CARD>!'' @ a @ CHR ''|'' # b @ CHR ''|'' # c @ post) init =
      Some ([py_strip a, py_strip c], rest)"
proof -
  let ?mb = "py_strip c"
  let ?st = "init\<lparr>cur := None, groups := groups init @ [py_strip a]\<rparr>"
  obtain ws2 ws3 where d: "c = ws2 @ ?mb @ ws3" "list_all is_space ws2"
      "list_all is_space ws3" "?mb = [] \<longrightarrow> ws3 = []"
    by (rule strip_decomp [of c])
  have sub: "set ?mb \<subseteq> set c" using d(1) by (metis Un_iff set_append subsetI)
  have tr: "\<not> is_space (hd ?mb)" "\<not> is_space (last ?mb)"
    using trimmed_py_strip [of c] c(2) by (simp_all add: trimmed_def)
  have nl: "newline \<notin> set ?mb" using sub c(1) by auto
  have st: "cur ?st = None" by simp
  from group2_tail [OF d(2) c(2) tr nl d(3) post st]
  obtain rest where "re_match (Atom is_space Greedy_Star # Group_Open #
      Atom not_newline Lazy_Star # Group_Close #
      [Atom is_space Greedy_Star, End_Of_Line]) (ws2 @ ?mb @ ws3 @ post) ?st =
      Some ([py_strip a, ?mb], rest)"
    by auto
  with d(1) have k3: "re_match (Atom is_space Greedy_Star # Group_Open #
      Atom not_newline Lazy_Star # Group_Close #
      [Atom is_space Greedy_Star, End_Of_Line]) (c @ post) ?st =
      Some ([py_strip a, ?mb], rest)"
    by (metis append_assoc)
  note k2 = middle_segment [OF b st k3]
  note k1 = group1_segment [OF a cur_init k2]
  have "re_match input_card_re (''INPUT CARD>!'' @ a @ CHR ''|'' # b @ CHR ''|'' # c @ post) init
      = Some ([py_strip a, ?mb], rest)"
    unfolding input_card_re_def lit_forward using k1 by (simp del: re_match.simps)
  then show ?thesis by blast
qed

lemma re_search_first:
  "(\<And>i. i < length pre \<Longrightarrow> re_match p (drop i (pre @ s)) init = None) \<Longrightarrow>
   re_match p s init = Some (gs, rest) \<Longrightarrow> re_search p (pre @ s) = Some gs"
proof (induction pre)
  case Nil
  then show ?case by (cases s) auto
next
  case (Cons x pre)
  from Cons.prems(1) [of 0] have n: "re_match p (x # pre @ s) init = None" by simp
  have "re_search p (pre @ s) = Some gs"
  proof (rule Cons.IH [OF _ Cons.prems(2)])
    fix i assume "i < length pre"
    then have "re_match p (drop (Suc i) ((x # pre) @ s)) init = None"
      by (intro Cons.prems(1)) simp
    then show "re_match p (drop i (pre @ s)) init = None" by simp
  qed
  with n show ?case by simp
qed

lemma lit_prefix: "re_match (lit l @ r) s st = Some m \<Longrightarrow> prefix l s"
  by (erule lit_inv) simp

lemma input_card_needs_marker:
  "\<not> prefix ''INPUT CARD>!'' s \<Longrightarrow> re_match input_card_re s init = None"
  unfolding input_card_re_def by (rule ccontr) (auto dest: lit_prefix simp del: re_match.simps)

lemma py_strip_trimmed: "trimmed s \<Longrightarrow> py_strip s = s"
proof (cases "s = []")
  case True
  then show ?thesis by (simp add: py_strip_def)
next
  case False
  assume "trimmed s"
  with False have h: "\<not> is_space (hd s)" and l: "\<not> is_space (last s)"
    by (simp_all add: trimmed_def)
  from h False have 1: "dropWhile is_space s = s" by (cases s) auto
  from l False have "\<not> is_space (hd (rev s))" by (simp add: hd_rev)
  with False have 2: "dropWhile is_space (rev s) = rev s" by (cases "rev s") auto
  show ?thesis by (simp add: py_strip_def 1 2)
qed

lemma py_strip_idem: "py_strip (py_strip s) = py_strip s"
  by (rule py_strip_trimmed) (rule trimmed_py_strip)

lemma fallback_from_groups:
  assumes "re_search input_card_re text = Some [g1, g2]"
  shows "fallback_parse_input_section text =
     (PyStr (py_strip g1), PyStr ''Unknown'',
      PyStr (if CHR ''/'' \<in> set (py_strip g2)
             then py_strip (drop 1 (dropWhile (\<lambda>x. x \<noteq> CHR ''/'') (py_strip g2)))
             else ''Unknown''),
      PyStr (if CHR ''/'' \<in> set (py_strip g2)
             then py_strip (takeWhile (\<lambda>x. x \<noteq> CHR ''/'') (py_strip g2))
             else py_strip g2))"
  using assms
  by (simp add: fallback_parse_input_section_def fallback_body_def group_def py_split1_def
      Let_def py_strip_idem trimmed_Unknown py_strip_trimmed)

text \<open>
  Claim C4, as stated, fails: the second \<^verbatim>\<open>.*?\<close> of the pattern is lazy, so the
  method/basis group starts after the second \<^verbatim>\<open>|\<close> of the line, not after the last.
  On a line with three, the method keeps the text between the second and the third.
  And \<^verbatim>\<open>\s*\<close> matches line breaks, so when nothing follows the second \<^verbatim>\<open>|\<close> on
  its line the group is taken from the next line.
\<close>

theorem method_basis_not_after_last_pipe:
  "fallback_parse_input_section ''INPUT CARD>! A | b | c | D/E'' =
     (PyStr ''A'', PyStr ''Unknown'', PyStr ''E'', PyStr ''c | D'') \<and>
   fallback_parse_input_section (''INPUT CARD>! M | x |'' @ [newline] @ ''NEXT LINE'') =
     (PyStr ''M'', PyStr ''Unknown'', PyStr ''Unknown'', PyStr ''NEXT LINE'')"
  by code_simp

text \<open>
  Claim C4, amended. Let the parser match an input-echo line: the first position of the
  text at which the pattern matches is an \<^verbatim>\<open>INPUT CARD>!\<close> followed by \<open>a\<close>, \<^verbatim>\<open>|\<close>,
  \<open>b\<close>, \<^verbatim>\<open>|\<close>, \<open>c\<close> and the end of the line, where \<open>a\<close> and \<open>b\<close> contain neither
  \<^verbatim>\<open>|\<close> nor a line break and \<open>c\<close> is not blank and contains no line break (earlier
  \<^verbatim>\<open>INPUT CARD>!\<close> lines that the pattern does not match may come before it). Then
  the molecule is \<open>a\<close> trimmed, the text before the first \<^verbatim>\<open>|\<close>; the method/basis
  segment is \<open>c\<close> trimmed, the text after the second \<^verbatim>\<open>|\<close> up to the end of the line
  (after the last \<^verbatim>\<open>|\<close> when the line has two); method and basis are the trimmed parts
  of that segment before and after its first \<^verbatim>\<open>/\<close>, the basis being \<^verbatim>\<open>Unknown\<close> when
  it has none; and the force field is \<^verbatim>\<open>Unknown\<close>.
\<close>

theorem fallback_parse_input_line:
  assumes "text = pre @ ''INPUT CARD>!'' @ a @ ''|'' @ b @ ''|'' @ c @ post"
    and "\<forall>i<length pre. re_match input_card_re (drop i text) init = None"
    and "CHR ''|'' \<notin> set a" "newline \<notin> set a"
    and "CHR ''|'' \<notin> set b" "newline \<notin> set b"
    and "newline \<notin> set c" "py_strip c \<noteq> []"
    and "post = [] \<or> hd post = newline"
  shows "fallback_parse_input_section text =
     (PyStr (py_strip a), PyStr ''Unknown'',
      PyStr (if CHR ''/'' \<in> set (py_strip c)
             then py_strip (drop 1 (dropWhile (\<lambda>x. x \<noteq> CHR ''/'') (py_strip c)))
             else ''Unknown''),
      PyStr (if CHR ''/'' \<in> set (py_strip c)
             then py_strip (takeWhile (\<lambda>x. x \<noteq> CHR ''/'') (py_strip c))
             else py_strip c))"
proof -
  let ?s = "''INPUT CARD>!'' @ a @ CHR ''|'' # b @ CHR ''|'' # c @ post"
  have t: "text = pre @ ?s" using assms(1) by simp
  from input_card_match [OF assms(3-9)] obtain rest where
    m: "re_match input_card_re ?s init = Some ([py_strip a, py_strip c], rest)"
    by blast
  have "re_search input_card_re (pre @ ?s) = Some [py_strip a, py_strip c]"
  proof (rule re_search_first [OF _ m])
    fix i assume "i < length pre"
    with assms(2) t show "re_match input_card_re (drop i (pre @ ?s)) init = None" by simp
  qed
  with t have "re_search input_card_re text = Some [py_strip a, py_strip c]" by simp
  from fallback_from_groups [OF this] show ?thesis by (simp only: py_strip_idem)
qed

theorem fallback_parse_input_line_witness:
  "fallback_parse_input_section
     ((''INPUT CARD>! $CONTRL'' @ [newline]) @ ''INPUT CARD>!'' @ '' Methane '' @ ''|'' @
      '' ignored '' @ ''|'' @ '' B3LYP/6-31G*'' @ (newline # ''INPUT CARD>! x | y | z'')) =
     (PyStr ''Methane'', PyStr ''Unknown'', PyStr ''6-31G*'', PyStr ''B3LYP'')"
proof -
  let ?pre = "''INPUT CARD>! $CONTRL'' @ [newline]"
  let ?t = "?pre @ ''INPUT CARD>!'' @ '' Methane '' @ ''|'' @
      '' ignored '' @ ''|'' @ '' B3LYP/6-31G*'' @ (newline # ''INPUT CARD>! x | y | z'')"
  have len: "length ?pre = 21" by simp
  have "list_all (\<lambda>i. re_match input_card_re (drop i ?t) init = None) [0..<21]"
    by code_simp
  then have 1: "\<forall>i<length ?pre. re_match input_card_re (drop i ?t) init = None"
    unfolding len by (simp only: list_all_iff set_upt atLeastLessThan_iff) auto
  have 2: "CHR ''|'' \<notin> set '' Methane ''" "newline \<notin> set '' Methane ''"
    "CHR ''|'' \<notin> set '' ignored ''" "newline \<notin> set '' ignored ''"
    "newline \<notin> set '' B3LYP/6-31G*''" "py_strip '' B3LYP/6-31G*'' \<noteq> []"
    by code_simp+
  have p: "newline # ''INPUT CARD>! x | y | z'' = [] \<or>
      hd (newline # ''INPUT CARD>! x | y | z'') = newline"
    by simp
  have 3: "py_strip '' Methane '' = ''Methane''"
    "py_strip '' B3LYP/6-31G*'' = ''B3LYP/6-31G*''"
    "py_strip (drop 1 (dropWhile (\<lambda>x. x \<noteq> CHR ''/'') ''B3LYP/6-31G*'')) = ''6-31G*''"
    "py_strip (takeWhile (\<lambda>x. x \<noteq> CHR ''/'') ''B3LYP/6-31G*'') = ''B3LYP''"
    "CHR ''/'' \<in> set ''B3LYP/6-31G*''"
    by code_simp+
  from fallback_parse_input_line [OF refl 1 2 p] show ?thesis
    by (simp only: 3 if_True)
qed

section \<open>The last wall-clock time\<close>

lemma plus_forward:
  assumes "ws \<noteq> []" "list_all p ws" "s = [] \<or> \<not> p (hd s)"
    "re_match r s (feed ws st) = Some m"
  shows "re_match (Atom p Greedy_Plus # r) (ws @ s) st = Some m"
proof -
  from assms(1,2) obtain w ws' where w: "ws = w # ws'" "p w" "list_all p ws'"
    by (cases ws) auto
  from assms(4) w have "re_match r s (feed ws' (consume w st)) = Some m"
    by (simp add: consume_feed)
  with w(3) assms(3) have "re_match (Atom p Greedy_Star # r) (ws' @ s) (consume w st) = Some m"
    by (intro star_forward)
  with w show ?thesis by simp
qed

lemma digit_not_space: "is_digit c \<Longrightarrow> \<not> is_space c"
  by (auto simp: is_digit_def is_space_def Let_def)

lemma wall_clock_shape:
  assumes ws: "ws \<noteq> []" "list_all is_space ws"
    and g: "decimal g"
    and rest: "rest = [] \<or> \<not> is_digit (hd rest)"
  shows "re_match wall_clock_re (''TOTAL WALL CLOCK TIME='' @ ws @ g @ rest) init =
     Some ([g], rest)"
proof -
  from g obtain a b where ab: "g = a @ CHR ''.'' # b" "a \<noteq> []" "list_all is_digit a"
      "b \<noteq> []" "list_all is_digit b"
    by (rule decimalE)
  have "re_match [Group_Close] rest (feed b (init\<lparr>cur := Some (a @ ''.'')\<rparr>)) = Some ([g], rest)"
    using ab(1) by simp
  with ab(4,5) rest have "re_match [Atom is_digit Greedy_Plus, Group_Close] (b @ rest)
      (init\<lparr>cur := Some (a @ ''.'')\<rparr>) = Some ([g], rest)"
    by (intro plus_forward)
  then have "re_match [Atom (is_char CHR ''.'') Once, Atom is_digit Greedy_Plus, Group_Close]
      (CHR ''.'' # b @ rest) (feed a (init\<lparr>cur := Some []\<rparr>)) = Some ([g], rest)"
    by (simp add: is_char_def consume_feed del: re_match.simps(8))
  with ab(2,3) have "re_match [Atom is_digit Greedy_Plus, Atom (is_char CHR ''.'') Once,
      Atom is_digit Greedy_Plus, Group_Close] (a @ CHR ''.'' # b @ rest)
      (init\<lparr>cur := Some []\<rparr>) = Some ([g], rest)"
    by (intro plus_forward) simp_all
  then have op: "re_match [Group_Open, Atom is_digit Greedy_Plus, Atom (is_char CHR ''.'') Once,
      Atom is_digit Greedy_Plus, Group_Close] (g @ rest) (feed ws init) = Some ([g], rest)"
    using ab(1) by (simp add: open_group_def del: re_match.simps(8))
  have "is_digit (hd (g @ rest))" using ab by (cases a) auto
  then have "g @ rest = [] \<or> \<not> is_space (hd (g @ rest))" by (simp add: digit_not_space)
  with ws have "re_match [Atom is_space Greedy_Plus, Group_Open, Atom is_digit Greedy_Plus,
      Atom (is_char CHR ''.'') Once, Atom is_digit Greedy_Plus, Group_Close]
      (ws @ g @ rest) (feed ''TOTAL WALL CLOCK TIME='' init) = Some ([g], rest)"
    using op by (intro plus_forward) simp_all
  then show ?thesis
    unfolding wall_clock_re_def lit_forward .
qed

lemma wall_clock_needs_marker:
  "\<not> prefix ''TOTAL WALL CLOCK TIME='' s \<Longrightarrow> re_match wall_clock_re s init = None"
  unfolding wall_clock_re_def by (rule ccontr) (auto dest: lit_prefix simp del: re_match.simps)

text \<open>
  Claim C3. An occurrence of the pattern is a position of the text at which
  \<^verbatim>\<open>TOTAL WALL CLOCK TIME=\s+([0-9]+\.\d+)\<close> matches. When no position has one,
  \<open>run_time\<close> returns \<^verbatim>\<open>None\<close>; when position \<open>i\<close> has one and no later position
  has, \<open>run_time\<close> returns the decimal captured at \<open>i\<close>, whatever occurrences come
  before it. In particular, when the last \<^verbatim>\<open>TOTAL WALL CLOCK TIME=\<close> of the text is
  followed by white space and a decimal, \<open>run_time\<close> returns that decimal.
\<close>

theorem run_time_last_occurrence:
  "((\<forall>i. i \<le> length text \<longrightarrow> re_match wall_clock_re (drop i text) init = None) \<longrightarrow>
      run_time text = PyNone) \<and>
   (\<forall>i g rest.
      i \<le> length text \<and> re_match wall_clock_re (drop i text) init = Some ([g], rest) \<and>
      (\<forall>j. i < j \<and> j \<le> length text \<longrightarrow>
           re_match wall_clock_re (drop j text) init = None) \<longrightarrow>
      run_time text = PyStr g \<and> decimal g) \<and>
   (\<forall>pre ws g post.
      text = pre @ ''TOTAL WALL CLOCK TIME='' @ ws @ g @ post \<and>
      ws \<noteq> [] \<and> list_all is_space ws \<and> decimal g \<and>
      (post = [] \<or> \<not> is_digit (hd post)) \<and>
      (\<forall>j. length pre < j \<and> j \<le> length text \<longrightarrow>
           \<not> prefix ''TOTAL WALL CLOCK TIME='' (drop j text)) \<longrightarrow>
      run_time text = PyStr g)"
proof (intro conjI allI impI)
  assume "\<forall>i. i \<le> length text \<longrightarrow> re_match wall_clock_re (drop i text) init = None"
  then have "occurrences wall_clock_re text = []"
    by (intro occurrences_none) blast
  then show "run_time text = PyNone" by (simp add: run_time_occurrences)
next
  fix i g rest
  assume a: "i \<le> length text \<and>
      re_match wall_clock_re (drop i text) init = Some ([g], rest) \<and>
      (\<forall>j. i < j \<and> j \<le> length text \<longrightarrow>
           re_match wall_clock_re (drop j text) init = None)"
  then have "occurrences wall_clock_re text \<noteq> [] \<and>
      last (occurrences wall_clock_re text) = group1 [g]"
    by (intro occurrences_last [of i _ _ _ rest]) blast+
  then show "run_time text = PyStr g"
    by (simp add: run_time_occurrences group1_def)
  from a show "decimal g" by (blast dest: wall_clock_match)
next
  fix pre ws g post
  assume a: "text = pre @ ''TOTAL WALL CLOCK TIME='' @ ws @ g @ post \<and>
      ws \<noteq> [] \<and> list_all is_space ws \<and> decimal g \<and>
      (post = [] \<or> \<not> is_digit (hd post)) \<and>
      (\<forall>j. length pre < j \<and> j \<le> length text \<longrightarrow>
           \<not> prefix ''TOTAL WALL CLOCK TIME='' (drop j text))"
  then have m: "re_match wall_clock_re (''TOTAL WALL CLOCK TIME='' @ ws @ g @ post) init =
      Some ([g], post)"
    by (intro wall_clock_shape) blast+
  have "occurrences wall_clock_re text \<noteq> [] \<and>
      last (occurrences wall_clock_re text) = group1 [g]"
  proof (rule occurrences_last [of "length pre" _ _ _ post])
    show "length pre \<le> length text" using a by simp
    show "re_match wall_clock_re (drop (length pre) text) init = Some ([g], post)"
      using a m by simp
    fix j assume "length pre < j" "j \<le> length text"
    with a have "\<not> prefix ''TOTAL WALL CLOCK TIME='' (drop j text)" by blast
    then show "re_match wall_clock_re (drop j text) init = None"
      by (rule wall_clock_needs_marker)
  qed
  then show "run_time text = PyStr g"
    by (simp add: run_time_occurrences group1_def)
qed

theorem run_time_last_occurrence_witness:
  "map_option fst (re_match wall_clock_re
     (''TOTAL WALL CLOCK TIME= 12.3'' @ [newline] @ ''TOTAL WALL CLOCK TIME= 45.6'') init) =
     Some [''12.3''] \<and>
   run_time (''TOTAL WALL CLOCK TIME= 12.3'' @ [newline] @ ''TOTAL WALL CLOCK TIME= 45.6'') =
     PyStr ''45.6'' \<and>
   run_time ''TOTAL WALL CLOCK TIME= 1. 2'' = PyNone \<and>
   run_time (''TIME= 1.0 '' @ ''TOTAL WALL CLOCK TIME='' @ ''  '' @ ''7.25'' @ '' S'') =
     PyStr ''7.25''"
proof -
  let ?t = "''TOTAL WALL CLOCK TIME= 12.3'' @ [newline] @ ''TOTAL WALL CLOCK TIME= 45.6''"
  have first: "map_option fst (re_match wall_clock_re ?t init) = Some [''12.3'']"
    by code_simp
  have len: "length ?t = 55" by simp
  have i: "(28::nat) \<le> length ?t" by simp
  have m: "re_match wall_clock_re (drop 28 ?t) init = Some ([''45.6''], [])" by code_simp
  have "list_all (\<lambda>j. re_match wall_clock_re (drop j ?t) init = None) [29..<56]"
    by code_simp
  then have later: "\<forall>j. 28 < j \<and> j \<le> length ?t \<longrightarrow>
      re_match wall_clock_re (drop j ?t) init = None"
    unfolding len by (simp only: list_all_iff set_upt atLeastLessThan_iff) auto
  from run_time_last_occurrence [of ?t] i m later
  have 1: "run_time ?t = PyStr ''45.6''" by blast
  let ?u = "''TOTAL WALL CLOCK TIME= 1. 2''"
  have lenu: "length ?u = 27" by simp
  have "list_all (\<lambda>j. re_match wall_clock_re (drop j ?u) init = None) [0..<28]"
    by code_simp
  then have "\<forall>i. i \<le> length ?u \<longrightarrow> re_match wall_clock_re (drop i ?u) init = None"
    unfolding lenu by (simp only: list_all_iff set_upt atLeastLessThan_iff) auto
  with run_time_last_occurrence [of ?u] have 2: "run_time ?u = PyNone" by blast
  let ?v = "''TIME= 1.0 '' @ ''TOTAL WALL CLOCK TIME='' @ ''  '' @ ''7.25'' @ '' S''"
  have lenv: "length ?v = 40" "length ''TIME= 1.0 '' = 10" by simp_all
  have "list_all (\<lambda>j. \<not> prefix ''TOTAL WALL CLOCK TIME='' (drop j ?v)) [11..<41]"
    by code_simp
  then have nv: "\<forall>j. length ''TIME= 1.0 '' < j \<and> j \<le> length ?v \<longrightarrow>
      \<not> prefix ''TOTAL WALL CLOCK TIME='' (drop j ?v)"
    unfolding lenv by (simp only: list_all_iff set_upt atLeastLessThan_iff) auto
  have h: "''  '' \<noteq> []" "list_all is_space ''  ''" "decimal ''7.25''"
    "'' S'' = [] \<or> \<not> is_digit (hd '' S'')"
    by code_simp+
  from run_time_last_occurrence [of ?v] nv h
  have 3: "run_time ?v = PyStr ''7.25''" by blast
  from first 1 2 3 show ?thesis by blast
qed

end
